theory Spec2Isabelle
  imports Complex_Main "HOL-Library.Log_Nat"
begin

section \<open>Double-precision numbers\<close>

text \<open>
  The tableaux are numpy arrays of dtype float64. An entry is a finite number, an
  infinity or a NaN. A finite entry is kept as the rational number it denotes; every
  arithmetic operation computes the exact rational result and rounds it to the nearest
  double, ties to even (53-bit significand, binades \<open>-1022 .. 1023\<close>, gradual
  underflow below \<open>2 powi (- 1022)\<close>, overflow to an infinity from \<open>2 powi 1024\<close> on).
  Comparisons with a NaN are false.

  The sign of a zero is not represented. It is observable only through a division by
  zero, and the functions of the notebook divide by entries that were tested \<open>> 0\<close>
  (the ratio test) or by a pivot that passed the test \<open>\<bar>pivot\<bar> \<ge> eps\<close>.
\<close>

datatype float64 = Fin rat | PInf | NInf | NaN

definition floor_log2 :: "rat \<Rightarrow> int" where
  "floor_log2 a = (let (n, d) = quotient_of a; e0 = bitlen n - bitlen d
                   in if 2 powi e0 \<le> a then e0 else e0 - 1)"

definition rnd_even :: "rat \<Rightarrow> int" where
  "rnd_even y = (let f = \<lfloor>y\<rfloor>; d = y - of_int f
                 in if d < 1 / 2 then f else if 1 / 2 < d then f + 1
                    else if even f then f else f + 1)"

definition round64 :: "rat \<Rightarrow> float64" where
  "round64 x = (if x = 0 then Fin 0 else
     let a = \<bar>x\<bar>; e = max (floor_log2 a) (- 1022); u = 2 powi (e - 52);
         r = of_int (rnd_even (a / u)) * u
     in if 2 powi 1024 \<le> r then (if 0 < x then PInf else NInf)
        else Fin (if 0 < x then r else - r))"

text \<open>A rational number is a double when rounding leaves it alone.\<close>

definition is_double :: "float64 \<Rightarrow> bool" where
  "is_double v = (case v of Fin x \<Rightarrow> round64 x = Fin x | _ \<Rightarrow> True)"

definition finite64 :: "float64 \<Rightarrow> bool" where
  "finite64 v = (case v of Fin x \<Rightarrow> True | _ \<Rightarrow> False)"

fun fneg :: "float64 \<Rightarrow> float64" where
  "fneg (Fin a) = Fin (- a)"
| "fneg PInf = NInf"
| "fneg NInf = PInf"
| "fneg NaN = NaN"

fun fabs :: "float64 \<Rightarrow> float64" where
  "fabs (Fin a) = Fin \<bar>a\<bar>"
| "fabs PInf = PInf"
| "fabs NInf = PInf"
| "fabs NaN = NaN"

fun fadd :: "float64 \<Rightarrow> float64 \<Rightarrow> float64" where
  "fadd NaN y = NaN"
| "fadd x NaN = NaN"
| "fadd (Fin a) (Fin b) = round64 (a + b)"
| "fadd PInf NInf = NaN"
| "fadd NInf PInf = NaN"
| "fadd PInf y = PInf"
| "fadd NInf y = NInf"
| "fadd (Fin a) y = y"

definition fsub :: "float64 \<Rightarrow> float64 \<Rightarrow> float64" where
  "fsub x y = fadd x (fneg y)"

fun fmul :: "float64 \<Rightarrow> float64 \<Rightarrow> float64" where
  "fmul NaN y = NaN"
| "fmul x NaN = NaN"
| "fmul (Fin a) (Fin b) = round64 (a * b)"
| "fmul (Fin a) y = (if a = 0 then NaN else if 0 < a then y else fneg y)"
| "fmul x (Fin b) = (if b = 0 then NaN else if 0 < b then x else fneg x)"
| "fmul PInf y = y"
| "fmul NInf y = fneg y"

fun fdiv :: "float64 \<Rightarrow> float64 \<Rightarrow> float64" where
  "fdiv NaN y = NaN"
| "fdiv x NaN = NaN"
| "fdiv (Fin a) (Fin b) =
     (if b = 0 then (if a = 0 then NaN else if 0 < a then PInf else NInf)
      else round64 (a / b))"
| "fdiv (Fin a) y = Fin 0"
| "fdiv x (Fin b) = (if 0 \<le> b then x else fneg x)"
| "fdiv x y = NaN"

fun flt :: "float64 \<Rightarrow> float64 \<Rightarrow> bool" where
  "flt NaN y = False"
| "flt x NaN = False"
| "flt (Fin a) (Fin b) = (a < b)"
| "flt x NInf = False"
| "flt NInf y = True"
| "flt PInf y = False"
| "flt (Fin a) PInf = True"

fun fle :: "float64 \<Rightarrow> float64 \<Rightarrow> bool" where
  "fle NaN y = False"
| "fle x NaN = False"
| "fle (Fin a) (Fin b) = (a \<le> b)"
| "fle NInf y = True"
| "fle x PInf = True"
| "fle PInf y = False"
| "fle (Fin a) NInf = False"

definition fgt :: "float64 \<Rightarrow> float64 \<Rightarrow> bool" where
  "fgt x y = flt y x"

definition fge :: "float64 \<Rightarrow> float64 \<Rightarrow> bool" where
  "fge x y = fle y x"

definition feq :: "float64 \<Rightarrow> float64 \<Rightarrow> bool" where
  "feq x y = (x \<noteq> NaN \<and> y \<noteq> NaN \<and> x = y)"

text \<open>\<open>np.finfo(float).eps\<close> is \<open>2 powi (- 52)\<close>; its square root \<open>2 powi (- 26)\<close> is a double,
  so \<open>np.sqrt\<close> returns it exactly.\<close>

definition eps :: float64 where
  "eps = Fin (1 / 2 ^ 52)"

definition sqrt_eps :: float64 where
  "sqrt_eps = Fin (1 / 2 ^ 26)"

subsection \<open>Facts about rounding\<close>

lemma powi2_less_iff: "(2::rat) powi m < 2 powi n \<longleftrightarrow> m < n"
proof
  assume "(2::rat) powi m < 2 powi n"
  show "m < n"
  proof (rule ccontr)
    assume "\<not> m < n"
    hence "n \<le> m" by simp
    hence "(2::rat) powi n \<le> 2 powi m" by (intro power_int_increasing) simp_all
    with \<open>(2::rat) powi m < 2 powi n\<close> show False by simp
  qed
next
  assume "m < n"
  thus "(2::rat) powi m < 2 powi n" by (intro power_int_strict_increasing) simp_all
qed

lemma powi2_le_iff: "(2::rat) powi m \<le> 2 powi n \<longleftrightarrow> m \<le> n"
  using powi2_less_iff [of n m] by (simp add: not_less [symmetric])

lemma bitlen_powi_bounds:
  assumes "0 < k"
  shows "(2::rat) powi (bitlen k - 1) \<le> of_int k" and "of_int k < (2::rat) powi (bitlen k)"
proof -
  from bitlen_bounds[OF assms] have b: "2 ^ nat (bitlen k - 1) \<le> k" "k < 2 ^ nat (bitlen k)" by auto
  have ge1: "1 \<le> bitlen k" using assms by (auto simp: bitlen_alt_def)
  have "(of_int (2 ^ nat (bitlen k - 1)) :: rat) \<le> of_int k" using b(1) by (simp only: of_int_le_iff)
  thus "(2::rat) powi (bitlen k - 1) \<le> of_int k" using ge1 by (simp add: power_int_def)
  have "(of_int k :: rat) < of_int (2 ^ nat (bitlen k))" using b(2) by (simp only: of_int_less_iff)
  thus "of_int k < (2::rat) powi (bitlen k)" using ge1 by (simp add: power_int_def)
qed

lemma floor_log2_bounds:
  assumes "0 < a"
  shows "2 powi (floor_log2 a) \<le> a \<and> a < 2 powi (floor_log2 a + 1)"
proof -
  obtain n d where q: "quotient_of a = (n, d)" by (cases "quotient_of a")
  have d: "0 < d" using q quotient_of_denom_pos by blast
  have a: "a = of_int n / of_int d" using q quotient_of_div by blast
  have n: "0 < n" using assms a d by (simp add: zero_less_divide_iff)
  let ?bn = "bitlen n" and ?bd = "bitlen d"
  note bn = bitlen_powi_bounds[OF n] and bd = bitlen_powi_bounds[OF d]
  have dpos: "(0::rat) < of_int d" using d by simp
  have up: "a < 2 powi (?bn - ?bd + 1)"
  proof -
    have "a * of_int d = of_int n" using a dpos by simp
    also have "\<dots> < 2 powi ?bn" by (rule bn(2))
    also have "\<dots> = (2::rat) powi (?bn - ?bd + 1) * 2 powi (?bd - 1)"
      by (simp add: power_int_add [symmetric])
    also have "\<dots> \<le> 2 powi (?bn - ?bd + 1) * of_int d"
      by (intro mult_left_mono bd(1)) simp
    finally show ?thesis using dpos by simp
  qed
  have lo: "2 powi (?bn - ?bd - 1) \<le> a"
  proof -
    have "(2::rat) powi (?bn - ?bd - 1) * of_int d \<le> 2 powi (?bn - ?bd - 1) * 2 powi ?bd"
      by (intro mult_left_mono less_imp_le[OF bd(2)]) simp
    also have "\<dots> = 2 powi (?bn - 1)" by (simp add: power_int_add [symmetric])
    also have "\<dots> \<le> of_int n" by (rule bn(1))
    also have "\<dots> = a * of_int d" using a dpos by simp
    finally show ?thesis using dpos by simp
  qed
  show ?thesis
  proof (cases "2 powi (?bn - ?bd) \<le> a")
    case True
    hence "floor_log2 a = ?bn - ?bd" by (simp add: floor_log2_def q)
    with True up show ?thesis by simp
  next
    case False
    hence "floor_log2 a = ?bn - ?bd - 1" by (simp add: floor_log2_def q)
    with False lo show ?thesis by simp
  qed
qed

lemma floor_log2_unique:
  assumes "0 < a" "2 powi e \<le> a" "a < 2 powi (e + 1)"
  shows "floor_log2 a = e"
proof -
  from floor_log2_bounds[OF assms(1)] have b: "2 powi (floor_log2 a) \<le> a" "a < 2 powi (floor_log2 a + 1)" by auto
  from b(1) assms(3) have "(2::rat) powi (floor_log2 a) < 2 powi (e + 1)" by (rule le_less_trans)
  hence 1: "floor_log2 a < e + 1" by (simp only: powi2_less_iff)
  from assms(2) b(2) have "(2::rat) powi e < 2 powi (floor_log2 a + 1)" by (rule le_less_trans)
  hence 2: "e < floor_log2 a + 1" by (simp only: powi2_less_iff)
  from 1 2 show ?thesis by simp
qed

lemma rnd_even_of_int: "rnd_even (of_int k) = k"
  by (simp add: rnd_even_def)

text \<open>Rounding a number whose binade \<open>e\<close> is given.\<close>

lemma round64_binade:
  assumes "x \<noteq> 0" "2 powi e \<le> \<bar>x\<bar>" "\<bar>x\<bar> < 2 powi (e + 1)"
  shows "round64 x = (let u = 2 powi (max e (- 1022) - 52);
         r = of_int (rnd_even (\<bar>x\<bar> / u)) * u
     in if 2 powi 1024 \<le> r then (if 0 < x then PInf else NInf)
        else Fin (if 0 < x then r else - r))"
proof -
  have "floor_log2 \<bar>x\<bar> = e" using assms by (intro floor_log2_unique) simp_all
  thus ?thesis unfolding round64_def Let_def using assms(1) by (simp only: if_False)
qed

lemma floor_rat_numeral_div: "\<lfloor>(numeral a / numeral b :: rat)\<rfloor> = numeral a div numeral b"
  using floor_divide_of_int_eq [of "numeral a" "numeral b", where ?'a = rat] by simp

lemma round64_0: "round64 0 = Fin 0" by (simp add: round64_def)

text \<open>A number \<open>k * 2 powi e\<close> with a 53-bit \<open>k\<close> and an exponent in range is a double.\<close>

lemma round64_exact:
  fixes k e :: int
  assumes x: "x = of_int k * 2 powi e" and k: "\<bar>k\<bar> < 2 ^ 53" and e: "- 1074 \<le> e" "e \<le> 971"
  shows "round64 x = Fin x"
proof (cases "x = 0")
  case True thus ?thesis by (simp add: round64_def)
next
  case False
  define a where "a = \<bar>x\<bar>"
  have apos: "0 < a" using False by (simp add: a_def)
  have a: "a = of_int \<bar>k\<bar> * 2 powi e" by (simp add: a_def x abs_mult)
  define L where "L = floor_log2 a"
  define E where "E = max L (- 1022) - 52"
  from floor_log2_bounds[OF apos] have Lb: "2 powi L \<le> a" by (simp add: L_def)
  have "(of_int \<bar>k\<bar> :: rat) < of_int (2 ^ 53)" using k by (simp only: of_int_less_iff)
  hence "of_int \<bar>k\<bar> * 2 powi e < (2::rat) powi 53 * 2 powi e"
    by (intro mult_strict_right_mono) simp_all
  also have "\<dots> = 2 powi (53 + e)" by (simp add: power_int_add)
  finally have aub: "a < 2 powi (53 + e)" by (simp add: a)
  with Lb have "(2::rat) powi L < 2 powi (53 + e)" by (rule le_less_trans)
  hence "L < 53 + e" by (simp only: powi2_less_iff)
  hence Ee: "E \<le> e" using e by (simp add: E_def)
  have "2 powi e = (2::rat) powi (e - E) * 2 powi E" by (simp add: power_int_add [symmetric])
  also have "(2::rat) powi (e - E) = of_int (2 ^ nat (e - E))" using Ee by (simp add: power_int_def)
  finally have q: "a / 2 powi E = of_int (\<bar>k\<bar> * 2 ^ nat (e - E))" by (simp add: a)
  have "(2::rat) powi E \<noteq> 0" by simp
  with q have "of_int (\<bar>k\<bar> * 2 ^ nat (e - E)) * 2 powi E = a"
    by (metis nonzero_divide_eq_eq)
  hence r: "of_int (rnd_even (a / 2 powi E)) * 2 powi E = a"
    by (simp only: q rnd_even_of_int)
  have "(2::rat) powi (53 + e) \<le> 2 powi 1024" using e by (simp only: powi2_le_iff)
  with aub have lt: "\<not> 2 powi 1024 \<le> a" by simp
  have "round64 x = Fin (if 0 < x then a else - a)"
    unfolding round64_def Let_def using False r lt
    by (simp only: a_def [symmetric] L_def [symmetric] E_def [symmetric] if_False)
  thus ?thesis by (simp add: a_def)
qed

lemma round64_numeral:
  "numeral n < (2::int) ^ 53 \<Longrightarrow> round64 (numeral n) = Fin (numeral n)"
  using round64_exact [of "numeral n" "numeral n" 0] by simp

lemma round64_neg_numeral:
  "numeral n < (2::int) ^ 53 \<Longrightarrow> round64 (- numeral n) = Fin (- numeral n)"
  using round64_exact [of "- numeral n" "- numeral n" 0] by simp

lemma round64_1: "round64 1 = Fin 1"
  using round64_exact [of 1 1 0] by simp

lemma round64_neg_1: "round64 (- 1) = Fin (- 1)"
  using round64_exact [of "- 1" "- 1" 0] by simp

lemmas round64_small = round64_0 round64_1 round64_neg_1 round64_numeral round64_neg_numeral

section \<open>numpy arrays and the numpy functions the notebook calls\<close>

text \<open>
  A two-dimensional array is its shape and its rows; numpy keeps the number of columns
  of an array that has no row, and \<open>getRow\<close> and \<open>np.delete\<close> read it. In a well-formed
  array every row has \<open>ncols\<close> entries.
\<close>

record ndarray =
  ncols :: nat
  rows :: "float64 list list"

definition wf_array :: "ndarray \<Rightarrow> bool" where
  "wf_array T = list_all (\<lambda>r. length r = ncols T) (rows T)"

definition shape :: "ndarray \<Rightarrow> nat \<times> nat" where
  "shape T = (length (rows T), ncols T)"

definition array2 :: "float64 list list \<Rightarrow> ndarray" where
  "array2 rs = \<lparr>ncols = (case rs of [] \<Rightarrow> 0 | r # _ \<Rightarrow> length r), rows = rs\<rparr>"

definition entry :: "ndarray \<Rightarrow> nat \<Rightarrow> nat \<Rightarrow> float64" where
  "entry T i j = rows T ! i ! j"

definition column :: "ndarray \<Rightarrow> nat \<Rightarrow> float64 list" where
  "column T j = map (\<lambda>r. r ! j) (rows T)"

datatype error =
    PivotRowRange
  | PivotColRange
  | PivotTooClose
  | VariableRange
  | IncompatibleSizes
  | ValueError
  | IndexError
  | TypeError

definition np_any :: "bool list \<Rightarrow> bool" where
  "np_any bs = (True \<in> set bs)"

text \<open>\<open>np.argmax\<close> of a Boolean array: the first \<open>True\<close>, and 0 when all entries are
  equal. Both calls in the notebook are guarded by \<open>.any()\<close>, so the array is not empty.\<close>

definition np_argmax :: "bool list \<Rightarrow> nat" where
  "np_argmax bs = (if np_any bs then length (takeWhile (\<lambda>b. \<not> b) bs) else 0)"

text \<open>\<open>np.argmin\<close> scans from the left and moves to an entry that is not \<open>\<ge>\<close> the
  current minimum; a NaN is such an entry and ends the scan. The empty array raises.\<close>

fun argmin_scan :: "float64 \<Rightarrow> nat \<Rightarrow> nat \<Rightarrow> float64 list \<Rightarrow> nat" where
  "argmin_scan mp min_ind i [] = min_ind"
| "argmin_scan mp min_ind i (x # xs) =
     (if \<not> fge x mp then (if x = NaN then i else argmin_scan x i (Suc i) xs)
      else argmin_scan mp min_ind (Suc i) xs)"

definition np_argmin :: "float64 list \<Rightarrow> error + nat" where
  "np_argmin xs = (case xs of [] \<Rightarrow> Inl ValueError
                   | x # ys \<Rightarrow> Inr (if x = NaN then 0 else argmin_scan x 0 1 ys))"

text \<open>\<open>np.sum\<close> of a one-dimensional float64 array is numpy's pairwise summation: a plain
  loop below 8 entries, eight running sums up to 128 entries, and a split in two halves
  above.\<close>

fun add_blocks :: "float64 list \<Rightarrow> float64 list \<Rightarrow> float64 list \<times> float64 list" where
  "add_blocks r xs =
     (if length xs < 8 then (r, xs)
      else add_blocks (map2 fadd r (take 8 xs)) (drop 8 xs))"

declare add_blocks.simps [simp del]

function pairwise_sum :: "float64 list \<Rightarrow> float64" where
  "pairwise_sum xs =
     (let n = length xs in
      if n < 8 then foldl fadd (Fin 0) xs
      else if n \<le> 128 then
        (let (r, rest) = add_blocks (take 8 xs) (drop 8 xs);
             res = fadd (fadd (fadd (r ! 0) (r ! 1)) (fadd (r ! 2) (r ! 3)))
                        (fadd (fadd (r ! 4) (r ! 5)) (fadd (r ! 6) (r ! 7)))
         in foldl fadd res rest)
      else
        (let n2 = n div 2 - (n div 2) mod 8
         in fadd (pairwise_sum (take n2 xs)) (pairwise_sum (drop n2 xs))))"
  by pat_completeness auto
termination
  by (relation "measure length") (auto simp: Let_def)

declare pairwise_sum.simps [simp del]

definition np_sum :: "float64 list \<Rightarrow> float64" where
  "np_sum xs = pairwise_sum xs"

text \<open>\<open>np.delete(T, idx, 0)\<close> and \<open>np.delete(T, idx, 1)\<close> return a new array without the
  listed rows or columns; an index outside the axis raises.\<close>

definition drop_indices :: "nat list \<Rightarrow> 'a list \<Rightarrow> 'a list" where
  "drop_indices idx xs = map snd (filter (\<lambda>(i, x). i \<notin> set idx) (zip [0..<length xs] xs))"

definition np_delete_rows :: "ndarray \<Rightarrow> nat list \<Rightarrow> error + ndarray" where
  "np_delete_rows T idx =
     (if list_ex (\<lambda>i. length (rows T) \<le> i) idx then Inl IndexError
      else Inr (T\<lparr>rows := drop_indices idx (rows T)\<rparr>))"

definition np_delete_cols :: "ndarray \<Rightarrow> nat list \<Rightarrow> error + ndarray" where
  "np_delete_cols T idx =
     (if list_ex (\<lambda>j. ncols T \<le> j) idx then Inl IndexError
      else Inr \<lparr>ncols = length (drop_indices idx [0..<ncols T]),
                rows = map (drop_indices idx) (rows T)\<rparr>)"

text \<open>Python leaves the iteration order of a set unspecified. CPython follows the hash
  table of the set, so that the order depends on the size of the table and on the
  insertions made: integers below the size of the table are listed in increasing order,
  but \<open>{7, 8}\<close> is listed as \<open>8, 7\<close>. The order in which \<open>list(s)\<close> lists a set of column
  indices, and the element \<open>s.pop()\<close> takes from a fresh set (the first in that order),
  are therefore a parameter of the model, the priority \<open>key\<close>.\<close>

definition set_order :: "(nat \<Rightarrow> nat) \<Rightarrow> nat list \<Rightarrow> nat list" where
  "set_order key xs = sort_key key xs"

section \<open>The pivot operator\<close>

text \<open>
  \<open>pivoting(tableau, p, q)\<close> of the tableau notebook and of the pivoting notebook (the
  same code; the first also prints the tableau before raising). The guards test
  \<open>q >= m\<close> and \<open>p >= n\<close> only, so a negative index reaches numpy's indexing, which
  counts it from the end or raises. The loop \<open>for i in set(range(m)) - {q}\<close> compares
  \<open>i\<close> with \<open>q\<close> itself. The function writes only to the array it has allocated with
  \<open>np.empty\<close>; \<open>pivoting\<close> gives the contents of that array.
\<close>

definition pivoting :: "ndarray \<Rightarrow> int \<Rightarrow> int \<Rightarrow> error + ndarray" where
  "pivoting tableau p q =
     (let (m, n) = shape tableau in
      if int m \<le> q then Inl PivotRowRange
      else if int n \<le> p then Inl PivotColRange
      else if q < - int m \<or> p < - int n then Inl IndexError
      else
        let qi = nat (if q < 0 then q + int m else q);
            pi = nat (if p < 0 then p + int n else p);
            thepivot = entry tableau qi pi
        in if flt (fabs thepivot) eps then Inl PivotTooClose
           else
             let thepivotrow = rows tableau ! qi
             in Inr (tableau\<lparr>rows :=
                  map (\<lambda>i. if int i = q then map (\<lambda>x. fdiv x thepivot) (rows tableau ! qi)
                            else map2 (\<lambda>x y. fsub x (fdiv (fmul (entry tableau i pi) y) thepivot))
                                   (rows tableau ! i) thepivotrow)
                      [0..<m]\<rparr>))"

text \<open>The call in a store of arrays: the argument is a reference \<open>r\<close>, the result a
  reference to a newly allocated array.\<close>

type_synonym store = "ndarray list"

definition pivoting_call :: "store \<Rightarrow> nat \<Rightarrow> int \<Rightarrow> int \<Rightarrow> store \<times> (error + nat)" where
  "pivoting_call s r p q =
     (case pivoting (s ! r) p q of
        Inl e \<Rightarrow> (s, Inl e)
      | Inr newtableau \<Rightarrow> (s @ [newtableau], Inr (length s)))"

section \<open>The entering and leaving selector\<close>

text \<open>\<open>simplexTableau(tableau)\<close> returns \<open>(p, q, opt, bounded)\<close>. With no row at all,
  \<open>tableau[-1, :-1]\<close> raises.\<close>

definition simplexTableau ::
  "ndarray \<Rightarrow> error + (nat option \<times> nat option \<times> bool \<times> bool)" where
  "simplexTableau tableau =
     (let (mtab, ntab) = shape tableau; m = mtab - 1 in
      if mtab = 0 then Inl IndexError
      else
        let reducedCost = butlast (last (rows tableau));
            negativeReducedCost = map (\<lambda>x. flt x (Fin 0)) reducedCost
        in if \<not> np_any negativeReducedCost then Inr (None, None, True, True)
           else
             let p = np_argmax negativeReducedCost;
                 xb = map last (butlast (rows tableau));
                 minusd = map (\<lambda>r. r ! p) (butlast (rows tableau));
                 steps = map (\<lambda>k. if fgt (minusd ! k) (Fin 0)
                                    then fdiv (xb ! k) (minusd ! k) else PInf) [0..<m]
             in case np_argmin steps of
                  Inl e \<Rightarrow> Inl e
                | Inr q \<Rightarrow>
                    let step = steps ! q
                    in if feq step PInf then Inr (None, None, False, False)
                       else Inr (Some p, Some q, False, True))"

text \<open>The loop body of the basis-form \<open>simplex(A, b, c, basis)\<close> of the simplex
  notebook, from the reduced costs on: \<open>xb\<close>, \<open>minusd\<close> and \<open>reducedCost\<close> come from
  \<open>np.linalg.solve\<close> and are taken as given. The result is \<open>None\<close> when the loop stops
  as optimal, and otherwise \<open>(p, q, step)\<close> as stored in \<open>iters\<close>.\<close>

definition basis_select ::
  "float64 list \<Rightarrow> float64 list list \<Rightarrow> float64 list \<Rightarrow> error + (nat \<times> nat \<times> float64) option" where
  "basis_select xb minusd reducedCost =
     (let m = length xb;
          negativeReducedCost = map (\<lambda>x. flt x (Fin 0)) reducedCost
      in if \<not> np_any negativeReducedCost then Inr None
         else
           let p = np_argmax negativeReducedCost;
               steps = map (\<lambda>k. if fgt (minusd ! k ! p) (Fin 0)
                                  then fdiv (xb ! k) (minusd ! k ! p) else PInf) [0..<m]
           in case np_argmin steps of
                Inl e \<Rightarrow> Inl e
              | Inr q \<Rightarrow> Inr (Some (p, q, steps ! q)))"

section \<open>The tableau iterator\<close>

text \<open>\<open>simplexAlgorithmTableau\<close> is a \<open>while True\<close> loop with no iteration bound; a run
  that never leaves the loop has the value \<open>None\<close>. The result is
  \<open>(tableau, optimal, unbounded)\<close>.\<close>

partial_function (option) simplexAlgorithmTableau ::
  "ndarray \<Rightarrow> (error + ndarray \<times> bool \<times> bool) option" where
  "simplexAlgorithmTableau tableau =
     (case simplexTableau tableau of
        Inl e \<Rightarrow> Some (Inl e)
      | Inr (colPivot, rowPivot, optimal, bounded) \<Rightarrow>
          if optimal then Some (Inr (tableau, True, False))
          else if \<not> bounded then Some (Inr (tableau, False, True))
          else (case (colPivot, rowPivot) of
                  (Some p, Some q) \<Rightarrow>
                    (case pivoting tableau (int p) (int q) of
                       Inl e \<Rightarrow> Some (Inl e)
                     | Inr newtableau \<Rightarrow> simplexAlgorithmTableau newtableau)
                | _ \<Rightarrow> Some (Inl TypeError)))"

section \<open>The basic-variable locator\<close>

fun getRow_scan :: "float64 list \<Rightarrow> nat \<Rightarrow> nat option \<Rightarrow> nat option" where
  "getRow_scan [] j rowIndex = rowIndex"
| "getRow_scan (x # xs) j rowIndex =
     (if fgt (fabs x) sqrt_eps then
        (if rowIndex = None \<and> fle (fabs (fsub x (Fin 1))) eps
         then getRow_scan xs (Suc j) (Some j)
         else None)
      else getRow_scan xs (Suc j) rowIndex)"

definition getRow :: "ndarray \<Rightarrow> nat \<Rightarrow> error + nat option" where
  "getRow tableau index =
     (let (mtab, ntab) = shape tableau in
      if \<not> index < ntab - 1 then Inl VariableRange
      else Inr (getRow_scan (column tableau index) 0 None))"

text \<open>\<open>[getRow(tableau, k) for k in range(count)]\<close>; the first exception ends it.\<close>

fun getRows :: "ndarray \<Rightarrow> nat list \<Rightarrow> error + nat option list" where
  "getRows tableau [] = Inr []"
| "getRows tableau (k # ks) =
     (case getRow tableau k of
        Inl e \<Rightarrow> Inl e
      | Inr r \<Rightarrow> (case getRows tableau ks of Inl e \<Rightarrow> Inl e | Inr rs \<Rightarrow> Inr (r # rs)))"

section \<open>The two-phase driver\<close>

text \<open>
  \<open>simplex(A, b, c)\<close> of the tableau notebook. The arrays \<open>A\<close> and \<open>b\<close> are the caller's
  objects, and the sign normalization assigns into them; the model returns their
  contents at the end of the call next to what the call returns or raises.

  In \<open>simplex\<close> the three arrays are given by their contents: it is the call on arrays
  that share no memory. The call on arrays that may share memory (the same array passed
  twice, a row or a column of \<open>A\<close> passed as \<open>b\<close> or \<open>c\<close>) is \<open>simplex_in_memory\<close> below.
\<close>

record simplex_call =
  array_A :: ndarray
  array_b :: "float64 list"
  array_c :: "float64 list"
  result :: "error + ndarray \<times> bool \<times> bool"

text \<open>\<open>negativeb = np.argwhere(b < 0)\<close> and the loop that negates those rows of \<open>A\<close>
  and entries of \<open>b\<close> in place.\<close>

definition negate_rows :: "ndarray \<Rightarrow> float64 list \<Rightarrow> ndarray" where
  "negate_rows A b =
     A\<lparr>rows := map (\<lambda>i. if flt (b ! i) (Fin 0) then map fneg (rows A ! i) else rows A ! i)
                    [0..<length (rows A)]\<rparr>"

definition negate_entries :: "float64 list \<Rightarrow> float64 list" where
  "negate_entries b = map (\<lambda>x. if flt x (Fin 0) then fneg x else x) b"

text \<open>The first tableau of the auxiliary problem: \<open>A\<close>, the identity, \<open>b\<close>, and the last
  row computed from the column sums of the rows above.\<close>

definition first_tableau :: "ndarray \<Rightarrow> float64 list \<Rightarrow> ndarray" where
  "first_tableau A b =
     (let (m, n) = shape A;
          top = map (\<lambda>i. rows A ! i @ map (\<lambda>j. if j = i then Fin 1 else Fin 0) [0..<m] @ [b ! i])
                    [0..<m];
          lastrow = map (\<lambda>k. fneg (np_sum (map (\<lambda>r. r ! k) top))) [0..<n]
                    @ replicate m (Fin 0)
                    @ [fneg (np_sum (map last top))]
      in \<lparr>ncols = n + m + 1, rows = top @ [lastrow]\<rparr>)"

text \<open>One pass of the loop \<open>while not clean\<close>. The state is \<open>phaseOneTableau\<close>,
  \<open>basicRows\<close> and \<open>rowsToRemove\<close>; \<open>n\<close> and \<open>m\<close> are the shape of \<open>A\<close>.\<close>

type_synonym clean_state = "ndarray \<times> nat option list \<times> nat list"

datatype pass = Done "error + clean_state" | Again clean_state

definition clean_pass :: "(nat \<Rightarrow> nat) \<Rightarrow> nat \<Rightarrow> nat \<Rightarrow> clean_state \<Rightarrow> pass" where
  "clean_pass key n m st =
     (let (phaseOneTableau, basicRows, rowsToRemove) = st;
          basicIndices = filter (\<lambda>k. basicRows ! k \<noteq> None) [0..<length basicRows];
          tobeCleaned = filter (\<lambda>k. n \<le> k \<and> k < n + m) basicIndices
      in if tobeCleaned = [] then Done (Inr st)
         else
           let auxiliaryColumn = hd (set_order key tobeCleaned)
           in (case basicRows ! auxiliaryColumn of
                None \<Rightarrow> Done (Inl TypeError)
              | Some rowpivotIndex \<Rightarrow>
                  if length (rows phaseOneTableau) \<le> rowpivotIndex then Done (Inl IndexError)
                  else
                    let rowpivot = rows phaseOneTableau ! rowpivotIndex;
                        originalNonbasic =
                          set_order key (filter (\<lambda>k. k \<notin> set basicIndices) [0..<n]);
                        nonzerosPivots = map (\<lambda>k. fgt (fabs (rowpivot ! k)) eps) originalNonbasic
                    in if np_any nonzerosPivots then
                         (let colpivot = originalNonbasic ! np_argmax nonzerosPivots
                          in case pivoting phaseOneTableau (int colpivot) (int rowpivotIndex) of
                               Inl e \<Rightarrow> Done (Inl e)
                             | Inr newtableau \<Rightarrow>
                                 Again (newtableau,
                                        list_update
                                          (list_update basicRows colpivot (Some rowpivotIndex))
                                          auxiliaryColumn None,
                                        rowsToRemove))
                       else
                         (let rowsToRemove' = rowsToRemove @ [rowpivotIndex]
                          in case np_delete_rows phaseOneTableau rowsToRemove' of
                               Inl e \<Rightarrow> Done (Inl e)
                             | Inr newtableau \<Rightarrow>
                                 (case getRows newtableau [0..<m + n] of
                                    Inl e \<Rightarrow> Done (Inl e)
                                  | Inr basicRows' \<Rightarrow>
                                      Again (newtableau, basicRows', rowsToRemove')))))"

lemma filter_length_strict:
  "(\<forall>x\<in>set xs. Q x \<longrightarrow> P x) \<Longrightarrow> x \<in> set xs \<Longrightarrow> P x \<Longrightarrow> \<not> Q x
   \<Longrightarrow> length (filter Q xs) < length (filter P xs)"
proof (induction xs)
  case Nil thus ?case by simp
next
  case (Cons y ys)
  have le: "length (filter Q ys) \<le> length (filter P ys)"
    using Cons.prems(1) by (induction ys) auto
  show ?case
  proof (cases "x = y")
    case True
    with Cons.prems le show ?thesis by auto
  next
    case False
    with Cons have "length (filter Q ys) < length (filter P ys)" by auto
    with Cons.prems(1) show ?thesis by auto
  qed
qed

lemma takeWhile_not_less: "True \<in> set bs \<Longrightarrow> length (takeWhile (\<lambda>b. \<not> b) bs) < length bs"
  by (induction bs) auto

lemma np_argmax_less: "np_any bs \<Longrightarrow> np_argmax bs < length bs"
  by (simp add: np_argmax_def np_any_def takeWhile_not_less)

lemma pivoting_rows: "pivoting T p q = Inr T' \<Longrightarrow> length (rows T') = length (rows T)"
  by (auto simp: pivoting_def shape_def Let_def split: if_splits)

lemma drop_indices_less:
  "r \<in> set idx \<Longrightarrow> r < length xs \<Longrightarrow> length (drop_indices idx xs) < length xs"
proof -
  assume r: "r \<in> set idx" "r < length xs"
  have "(r, xs ! r) \<in> set (zip [0..<length xs] xs)"
    using r(2) by (auto simp: in_set_zip intro!: exI[of _ r])
  hence "length (filter (\<lambda>(i, x). i \<notin> set idx) (zip [0..<length xs] xs)) < length (zip [0..<length xs] xs)"
    using r(1) by (intro length_filter_less[of "(r, xs ! r)"]) auto
  thus ?thesis by (simp add: drop_indices_def)
qed

text \<open>The loop ends: a pass that goes on either deletes a row of the tableau or keeps
  the rows and takes one auxiliary column out of \<open>basicRows\<close>.\<close>

definition aux_basic :: "nat \<Rightarrow> nat \<Rightarrow> nat option list \<Rightarrow> nat" where
  "aux_basic n m basicRows =
     length (filter (\<lambda>k. n \<le> k \<and> k < n + m \<and> basicRows ! k \<noteq> None) [0..<length basicRows])"

lemma clean_pass_decreases:
  assumes "clean_pass key n m (T, br, rr) = Again (T', br', rr')"
  shows "length (rows T') < length (rows T)
       \<or> length (rows T') = length (rows T) \<and> aux_basic n m br' < aux_basic n m br"
proof -
  define bi where "bi = filter (\<lambda>k. br ! k \<noteq> None) [0..<length br]"
  define tc where "tc = filter (\<lambda>k. n \<le> k \<and> k < n + m) bi"
  define aux where "aux = hd (set_order key tc)"
  from assms have ne: "tc \<noteq> []"
    by (auto simp: clean_pass_def Let_def bi_def tc_def split: if_splits)
  hence "set (set_order key tc) \<noteq> {}" by (simp add: set_order_def)
  hence "set_order key tc \<noteq> []" by auto
  hence "aux \<in> set (set_order key tc)" unfolding aux_def by (rule hd_in_set)
  hence "aux \<in> set tc" by (simp add: set_order_def)
  hence aux: "n \<le> aux" "aux < n + m" "aux < length br" "br ! aux \<noteq> None"
    by (auto simp: tc_def bi_def)
  then obtain r where r: "br ! aux = Some r" by auto
  define on where "on = set_order key (filter (\<lambda>k. k \<notin> set bi) [0..<n])"
  define nz where "nz = map (\<lambda>k. fgt (fabs (rows T ! r ! k)) eps) on"
  have rlt: "r < length (rows T)"
    using assms ne r
    by (auto simp: clean_pass_def Let_def bi_def tc_def aux_def split: if_splits)
  show ?thesis
  proof (cases "np_any nz")
    case True
    define cp where "cp = on ! np_argmax nz"
    from assms ne r True rlt
    have piv: "pivoting T (int cp) (int r) = Inr T'"
      and br': "br' = list_update (list_update br cp (Some r)) aux None"
      by (auto simp: clean_pass_def Let_def bi_def tc_def aux_def on_def nz_def cp_def
               split: if_splits sum.splits)
    have "np_argmax nz < length on" using np_argmax_less[OF True] by (simp add: nz_def)
    hence "cp \<in> set on" unfolding cp_def by (rule nth_mem)
    hence cp: "cp < n" by (auto simp: on_def set_order_def)
    have upd: "list_update (list_update br cp (Some r)) aux None ! k = (if k = aux then None else br ! k)"
      if "n \<le> k" "k < length br" for k
    proof -
      from that cp have "cp \<noteq> k" by simp
      thus ?thesis using that aux by (simp add: nth_list_update)
    qed
    have "aux_basic n m br' < aux_basic n m br"
      unfolding aux_basic_def br' length_list_update
    proof (rule filter_length_strict[where x = aux])
      show "\<forall>k\<in>set [0..<length br].
              n \<le> k \<and> k < n + m \<and> list_update (list_update br cp (Some r)) aux None ! k \<noteq> None
              \<longrightarrow> n \<le> k \<and> k < n + m \<and> br ! k \<noteq> None"
        using upd by (auto split: if_splits)
      show "aux \<in> set [0..<length br]" using aux by simp
      show "n \<le> aux \<and> aux < n + m \<and> br ! aux \<noteq> None" using aux by simp
      show "\<not> (n \<le> aux \<and> aux < n + m \<and> list_update (list_update br cp (Some r)) aux None ! aux \<noteq> None)"
        using aux by simp
    qed
    with pivoting_rows[OF piv] show ?thesis by simp
  next
    case False
    from assms ne r False rlt
    have "np_delete_rows T (rr @ [r]) = Inr T'"
      by (auto simp: clean_pass_def Let_def bi_def tc_def aux_def on_def nz_def
               split: if_splits sum.splits)
    hence "rows T' = drop_indices (rr @ [r]) (rows T)"
      by (auto simp: np_delete_rows_def split: if_splits)
    with drop_indices_less[of r "rr @ [r]" "rows T"] rlt show ?thesis by simp
  qed
qed

function clean_loop :: "(nat \<Rightarrow> nat) \<Rightarrow> nat \<Rightarrow> nat \<Rightarrow> clean_state \<Rightarrow> error + clean_state" where
  "clean_loop key n m st =
     (case clean_pass key n m st of Done r \<Rightarrow> r | Again st' \<Rightarrow> clean_loop key n m st')"
  by pat_completeness auto
termination
proof (relation "measures [\<lambda>(key, n, m, T, br, rr). length (rows T),
                          \<lambda>(key, n, m, T, br, rr). aux_basic n m br]")
  show "wf (measures [\<lambda>(key, n, m, T, br, rr). length (rows T),
                          \<lambda>(key, n, m, T, br, rr). aux_basic n m br])" by simp
next
  fix key n m st st'
  assume a: "clean_pass key n m st = Again st'"
  obtain T br rr where st: "st = (T, br, rr)" by (cases st)
  obtain T' br' rr' where st': "st' = (T', br', rr')" by (cases st')
  from clean_pass_decreases[OF a[unfolded st st']]
  show "((key, n, m, st'), (key, n, m, st)) \<in> measures [\<lambda>(key, n, m, T, br, rr). length (rows T),
                          \<lambda>(key, n, m, T, br, rr). aux_basic n m br]"
    by (auto simp: st st')
qed

declare clean_loop.simps [simp del]

text \<open>The last row of the Phase II tableau, written entry by entry into
  \<open>startPhaseTwo\<close>. Each assignment reads column \<open>k\<close> (or the last column) before it
  writes its entry of the last row, so the entries read are those of the array as
  \<open>np.delete\<close> returned it.\<close>

definition phase_two_row :: "float64 list \<Rightarrow> nat \<Rightarrow> ndarray \<Rightarrow> nat option list \<Rightarrow> float64 list" where
  "phase_two_row c n startPhaseTwo basicRows =
     (let basic = concat (map (\<lambda>j. case basicRows ! j of None \<Rightarrow> [] | Some r \<Rightarrow> [(j, r)]) [0..<n])
      in map (\<lambda>k. if basicRows ! k = None
                   then fsub (c ! k)
                          (np_sum (map (\<lambda>(j, r). fmul (c ! j) (entry startPhaseTwo r k)) basic))
                   else last (rows startPhaseTwo) ! k) [0..<n]
         @ [fneg (np_sum (map (\<lambda>(j, r). fmul (c ! j) (last (rows startPhaseTwo ! r))) basic))])"

definition two_phases ::
  "(nat \<Rightarrow> nat) \<Rightarrow> nat \<Rightarrow> nat \<Rightarrow> float64 list \<Rightarrow> ndarray \<Rightarrow> (error + ndarray \<times> bool \<times> bool) option" where
  "two_phases key m n c tableau =
     (case simplexAlgorithmTableau tableau of
        None \<Rightarrow> None
      | Some (Inl e) \<Rightarrow> Some (Inl e)
      | Some (Inr (phaseOneTableau, optimal, unbounded)) \<Rightarrow>
          if unbounded then Some (Inr (tableau, True, False))
          else if flt (last (last (rows phaseOneTableau))) (fneg sqrt_eps)
          then Some (Inr (phaseOneTableau, False, True))
          else
            (case getRows phaseOneTableau [0..<m + n] of
               Inl e \<Rightarrow> Some (Inl e)
             | Inr basicRows \<Rightarrow>
                 (case clean_loop key n m (phaseOneTableau, basicRows, []) of
                    Inl e \<Rightarrow> Some (Inl e)
                  | Inr (cleanTableau, cleanRows, rowsToRemove) \<Rightarrow>
                      (case np_delete_cols cleanTableau [n..<n + m] of
                         Inl e \<Rightarrow> Some (Inl e)
                       | Inr startPhaseTwo \<Rightarrow>
                           (case getRows startPhaseTwo [0..<n] of
                              Inl e \<Rightarrow> Some (Inl e)
                            | Inr basicRows2 \<Rightarrow>
                                if rows startPhaseTwo = [] then Some (Inl IndexError)
                                else
                                  (case simplexAlgorithmTableau
                                          (startPhaseTwo\<lparr>rows := butlast (rows startPhaseTwo)
                                             @ [phase_two_row c n startPhaseTwo basicRows2]\<rparr>) of
                                     None \<Rightarrow> None
                                   | Some (Inl e) \<Rightarrow> Some (Inl e)
                                   | Some (Inr (phaseTwoTableau, optimal2, unbounded2)) \<Rightarrow>
                                       Some (Inr (phaseTwoTableau, unbounded2, False))))))))"

definition simplex ::
  "(nat \<Rightarrow> nat) \<Rightarrow> ndarray \<Rightarrow> float64 list \<Rightarrow> float64 list \<Rightarrow> simplex_call option" where
  "simplex key A b c =
     (let (m, n) = shape A in
      if length b \<noteq> m then
        Some \<lparr>array_A = A, array_b = b, array_c = c, result = Inl IncompatibleSizes\<rparr>
      else if length c \<noteq> n then
        Some \<lparr>array_A = A, array_b = b, array_c = c, result = Inl IncompatibleSizes\<rparr>
      else
        let A' = negate_rows A b;
            b' = negate_entries b;
            tableau = first_tableau A' b'
        in map_option (\<lambda>r. \<lparr>array_A = A', array_b = b', array_c = c, result = r\<rparr>)
             (two_phases key m n c tableau))"

text \<open>What \<open>printResults\<close> reads from a final tableau: the solution vector and the
  optimal value.\<close>

definition solution :: "ndarray \<Rightarrow> error + float64 list" where
  "solution finalTableau =
     (let (mtab, ntab) = shape finalTableau; n = ntab - 1
      in case getRows finalTableau [0..<n] of
           Inl e \<Rightarrow> Inl e
         | Inr basicRows \<Rightarrow>
             Inr (map (\<lambda>k. case basicRows ! k of
                              Some r \<Rightarrow> last (rows finalTableau ! r)
                            | None \<Rightarrow> Fin 0) [0..<n]))"

definition copt :: "ndarray \<Rightarrow> float64" where
  "copt finalTableau = fneg (last (last (rows finalTableau)))"

subsection \<open>The call on the caller's memory\<close>

text \<open>
  The caller's arrays are writeable views of memory: an array is given by the address of
  each of its elements, and two arrays share memory when an address occurs in both.
  Everything else the call works on (the tableaux) is newly allocated and shares nothing.
\<close>

type_synonym addr = nat

type_synonym memory = "addr \<Rightarrow> float64"

record matrix_view =
  view_ncols :: nat
  view_rows :: "addr list list"

type_synonym vector_view = "addr list"

definition load_vector :: "memory \<Rightarrow> vector_view \<Rightarrow> float64 list" where
  "load_vector mem v = map mem v"

definition load_matrix :: "memory \<Rightarrow> matrix_view \<Rightarrow> ndarray" where
  "load_matrix mem A = \<lparr>ncols = view_ncols A, rows = map (load_vector mem) (view_rows A)\<rparr>"

text \<open>An assignment to a row: the right-hand side has been evaluated, and its values are
  stored one by one.\<close>

fun store_vector :: "memory \<Rightarrow> vector_view \<Rightarrow> float64 list \<Rightarrow> memory" where
  "store_vector mem (a # as) (x # xs) = store_vector (mem(a := x)) as xs"
| "store_vector mem as xs = mem"

text \<open>The loop \<open>for i in negativeb\<close>, with \<open>A[i, :] = - A[i, :]\<close> and \<open>b[i] = - b[i]\<close>.
  The indices \<open>negativeb\<close> are computed once, before the loop.\<close>

fun normalize_signs :: "matrix_view \<Rightarrow> vector_view \<Rightarrow> nat list \<Rightarrow> memory \<Rightarrow> memory" where
  "normalize_signs A b [] mem = mem"
| "normalize_signs A b (i # negativeb) mem =
     (let mem1 = store_vector mem (view_rows A ! i)
                   (map fneg (load_vector mem (view_rows A ! i)));
          mem2 = mem1(b ! i := fneg (mem1 (b ! i)))
      in normalize_signs A b negativeb mem2)"

text \<open>The call: the memory when it returns, and what it returns or raises. The first
  tableau and \<open>c\<close> are read after the loop.\<close>

record simplex_run =
  memory_after :: memory
  returned :: "error + ndarray \<times> bool \<times> bool"

definition simplex_in_memory ::
  "(nat \<Rightarrow> nat) \<Rightarrow> memory \<Rightarrow> matrix_view \<Rightarrow> vector_view \<Rightarrow> vector_view
     \<Rightarrow> simplex_run option" where
  "simplex_in_memory key mem A b c =
     (let m = length (view_rows A); n = view_ncols A in
      if length b \<noteq> m then
        Some \<lparr>memory_after = mem, returned = Inl IncompatibleSizes\<rparr>
      else if length c \<noteq> n then
        Some \<lparr>memory_after = mem, returned = Inl IncompatibleSizes\<rparr>
      else
        let negativeb = filter (\<lambda>i. flt (mem (b ! i)) (Fin 0)) [0..<length b];
            mem' = normalize_signs A b negativeb mem;
            tableau = first_tableau (load_matrix mem' A) (load_vector mem' b)
        in map_option (\<lambda>r. \<lparr>memory_after = mem', returned = r\<rparr>)
             (two_phases key m n (load_vector mem' c) tableau))"

text \<open>The addresses of \<open>A\<close>; \<open>A\<close> and \<open>b\<close> are separate when no two of their elements
  have the same address.\<close>

definition cells :: "matrix_view \<Rightarrow> addr set" where
  "cells A = set (concat (view_rows A))"

definition separate :: "matrix_view \<Rightarrow> vector_view \<Rightarrow> bool" where
  "separate A b = distinct (concat (view_rows A) @ b)"

text \<open>The memory after the loop.\<close>

abbreviation normalized :: "memory \<Rightarrow> matrix_view \<Rightarrow> vector_view \<Rightarrow> memory" where
  "normalized mem A b \<equiv>
     normalize_signs A b (filter (\<lambda>i. flt (mem (b ! i)) (Fin 0)) [0..<length b]) mem"

section \<open>Evaluation on concrete arrays\<close>

lemmas np_defs = np_any_def np_argmax_def np_argmin_def np_sum_def pairwise_sum.simps
  np_delete_rows_def np_delete_cols_def drop_indices_def set_order_def
  shape_def array2_def entry_def column_def

lemmas fl_defs = fsub_def fgt_def fge_def feq_def eps_def sqrt_eps_def
  round64_0 round64_1 round64_neg_1 round64_numeral round64_neg_numeral

lemma simplex_sizes_ok:
  "length b = length (rows A) \<Longrightarrow> length c = ncols A \<Longrightarrow>
   simplex key A b c =
     map_option (\<lambda>r. \<lparr>array_A = negate_rows A b, array_b = negate_entries b,
                        array_c = c, result = r\<rparr>)
       (two_phases key (length (rows A)) (ncols A) c
          (first_tableau (negate_rows A b) (negate_entries b)))"
  by (simp add: simplex_def shape_def Let_def)

lemma two_phases_infeasible:
  "simplexAlgorithmTableau T = Some (Inr (T1, opt, False)) \<Longrightarrow>
   flt (last (last (rows T1))) (fneg sqrt_eps) \<Longrightarrow>
   two_phases key m n c T = Some (Inr (T1, False, True))"
  by (simp add: two_phases_def)

text \<open>
  The runs of \<open>simplex\<close> on concrete arrays are evaluated one call at a time.  Each of the
  following rules states what one call of the iterator, of the cleaning loop or of a pass of
  that loop returns, from the values of the calls inside it.
\<close>

lemma algorithm_optimal:
  "simplexTableau T = Inr (None, None, True, True) \<Longrightarrow>
   simplexAlgorithmTableau T = Some (Inr (T, True, False))"
  by (subst simplexAlgorithmTableau.simps) simp

lemma algorithm_unbounded:
  "simplexTableau T = Inr (None, None, False, False) \<Longrightarrow>
   simplexAlgorithmTableau T = Some (Inr (T, False, True))"
  by (subst simplexAlgorithmTableau.simps) simp

lemma algorithm_step:
  "simplexTableau T = Inr (Some p, Some q, False, True) \<Longrightarrow>
   pivoting T (int p) (int q) = Inr T' \<Longrightarrow>
   simplexAlgorithmTableau T' = r \<Longrightarrow>
   simplexAlgorithmTableau T = r"
  by (subst simplexAlgorithmTableau.simps) simp

lemma clean_loop_done:
  "clean_pass key n m st = Done r \<Longrightarrow> clean_loop key n m st = r"
  by (subst clean_loop.simps) simp

lemma clean_loop_again:
  "clean_pass key n m st = Again st' \<Longrightarrow> clean_loop key n m st' = r \<Longrightarrow>
   clean_loop key n m st = r"
  by (subst clean_loop.simps) simp

lemma clean_pass_done:
  assumes "filter (\<lambda>k. br ! k \<noteq> None) [0..<length br] = bi"
    and "filter (\<lambda>k. n \<le> k \<and> k < n + m) bi = []"
  shows "clean_pass key n m (T, br, rr) = Done (Inr (T, br, rr))"
proof -
  note d = clean_pass_def[of key n m "(T, br, rr)", unfolded Let_def prod.case,
      unfolded assms(1), unfolded assms(2)]
  show ?thesis by (simp add: d)
qed

lemma clean_pass_row:
  assumes "filter (\<lambda>k. br ! k \<noteq> None) [0..<length br] = bi"
    and "filter (\<lambda>k. n \<le> k \<and> k < n + m) bi = tc" "tc \<noteq> []"
    and "hd (set_order key tc) = aux" "br ! aux = Some r" "r < length (rows T)"
    and "set_order key (filter (\<lambda>k. k \<notin> set bi) [0..<n]) = orig"
    and "map (\<lambda>k. fgt (fabs (rows T ! r ! k)) eps) orig = nz"
  shows "clean_pass key n m (T, br, rr) =
     (if np_any nz then
        (case pivoting T (int (orig ! np_argmax nz)) (int r) of
           Inl e \<Rightarrow> Done (Inl e)
         | Inr newtableau \<Rightarrow>
             Again (newtableau,
                    list_update (list_update br (orig ! np_argmax nz) (Some r)) aux None, rr))
      else
        (case np_delete_rows T (rr @ [r]) of
           Inl e \<Rightarrow> Done (Inl e)
         | Inr newtableau \<Rightarrow>
             (case getRows newtableau [0..<m + n] of
                Inl e \<Rightarrow> Done (Inl e)
              | Inr basicRows' \<Rightarrow> Again (newtableau, basicRows', rr @ [r]))))"
proof -
  note d = clean_pass_def[of key n m "(T, br, rr)", unfolded Let_def prod.case,
      unfolded assms(1), unfolded assms(2), unfolded assms(4), unfolded assms(5) option.case,
      unfolded assms(7), unfolded assms(8)]
  show ?thesis using assms(3,6) by (simp add: d)
qed

lemma clean_pass_delete:
  assumes "filter (\<lambda>k. br ! k \<noteq> None) [0..<length br] = bi"
    and "filter (\<lambda>k. n \<le> k \<and> k < n + m) bi = tc" "tc \<noteq> []"
    and "hd (set_order key tc) = aux" "br ! aux = Some r" "r < length (rows T)"
    and "set_order key (filter (\<lambda>k. k \<notin> set bi) [0..<n]) = orig"
    and "map (\<lambda>k. fgt (fabs (rows T ! r ! k)) eps) orig = nz" "\<not> np_any nz"
    and "np_delete_rows T (rr @ [r]) = Inr T'" "getRows T' [0..<m + n] = Inr br'"
  shows "clean_pass key n m (T, br, rr) = Again (T', br', rr @ [r])"
  using assms(9-) by (simp add: clean_pass_row[OF assms(1-8)])

lemma clean_pass_delete_error:
  assumes "filter (\<lambda>k. br ! k \<noteq> None) [0..<length br] = bi"
    and "filter (\<lambda>k. n \<le> k \<and> k < n + m) bi = tc" "tc \<noteq> []"
    and "hd (set_order key tc) = aux" "br ! aux = Some r" "r < length (rows T)"
    and "set_order key (filter (\<lambda>k. k \<notin> set bi) [0..<n]) = orig"
    and "map (\<lambda>k. fgt (fabs (rows T ! r ! k)) eps) orig = nz" "\<not> np_any nz"
    and "np_delete_rows T (rr @ [r]) = Inl e"
  shows "clean_pass key n m (T, br, rr) = Done (Inl e)"
  using assms(9-) by (simp add: clean_pass_row[OF assms(1-8)])

lemma clean_pass_pivot:
  assumes "filter (\<lambda>k. br ! k \<noteq> None) [0..<length br] = bi"
    and "filter (\<lambda>k. n \<le> k \<and> k < n + m) bi = tc" "tc \<noteq> []"
    and "hd (set_order key tc) = aux" "br ! aux = Some r" "r < length (rows T)"
    and "set_order key (filter (\<lambda>k. k \<notin> set bi) [0..<n]) = orig"
    and "map (\<lambda>k. fgt (fabs (rows T ! r ! k)) eps) orig = nz" "np_any nz"
    and "orig ! np_argmax nz = cp"
    and "pivoting T (int cp) (int r) = Inr T'"
    and "list_update (list_update br cp (Some r)) aux None = br'"
  shows "clean_pass key n m (T, br, rr) = Again (T', br', rr)"
  using assms(9-) by (simp add: clean_pass_row[OF assms(1-8)])

lemma two_phases_through:
  assumes "simplexAlgorithmTableau T = Some (Inr (T1, opt, False))"
    and "\<not> flt (last (last (rows T1))) (fneg sqrt_eps)"
    and "getRows T1 [0..<m + n] = Inr br"
    and "clean_loop key n m (T1, br, []) = Inr (Tc, brc, rr)"
    and "np_delete_cols Tc [n..<n + m] = Inr S"
    and "getRows S [0..<n] = Inr br2"
    and "rows S \<noteq> []"
    and "S\<lparr>rows := butlast (rows S) @ [phase_two_row c n S br2]\<rparr> = S2"
    and "simplexAlgorithmTableau S2 = Some (Inr (T2, opt2, unbounded2))"
  shows "two_phases key m n c T = Some (Inr (T2, unbounded2, False))"
  using assms by (simp add: two_phases_def)

lemma two_phases_clean_error:
  assumes "simplexAlgorithmTableau T = Some (Inr (T1, opt, False))"
    and "\<not> flt (last (last (rows T1))) (fneg sqrt_eps)"
    and "getRows T1 [0..<m + n] = Inr br"
    and "clean_loop key n m (T1, br, []) = Inl e"
  shows "two_phases key m n c T = Some (Inl e)"
  using assms by (simp add: two_phases_def)

subsection \<open>An infeasible problem: \<open>0 * x = 1\<close>\<close>

definition infeasible_A :: ndarray where
  "infeasible_A = array2 [[Fin 0]]"

definition infeasible_b :: "float64 list" where
  "infeasible_b = [Fin 1]"

definition infeasible_c :: "float64 list" where
  "infeasible_c = [Fin 0]"

definition infeasible_tableau :: ndarray where
  "infeasible_tableau = \<lparr>ncols = 3, rows = [[Fin 0, Fin 1, Fin 1], [Fin 0, Fin 0, Fin (- 1)]]\<rparr>"

lemma infeasible_first_tableau:
  "first_tableau infeasible_A infeasible_b = infeasible_tableau"
  by (simp add: first_tableau_def infeasible_A_def infeasible_b_def infeasible_tableau_def
                np_defs fl_defs)

lemma infeasible_phase_one:
  "simplexAlgorithmTableau infeasible_tableau = Some (Inr (infeasible_tableau, True, False))"
proof -
  have "simplexTableau infeasible_tableau = Inr (None, None, True, True)"
    by (simp add: simplexTableau_def infeasible_tableau_def np_defs fl_defs)
  thus ?thesis by (subst simplexAlgorithmTableau.simps) simp
qed

lemma infeasible_simplex:
  "simplex key infeasible_A infeasible_b infeasible_c =
     Some \<lparr>array_A = infeasible_A, array_b = infeasible_b, array_c = infeasible_c,
           result = Inr (infeasible_tableau, False, True)\<rparr>"
proof -
  have 1: "length infeasible_b = length (rows infeasible_A)"
          "length infeasible_c = ncols infeasible_A"
    by (simp_all add: infeasible_A_def infeasible_b_def infeasible_c_def array2_def)
  have 2: "negate_rows infeasible_A infeasible_b = infeasible_A"
          "negate_entries infeasible_b = infeasible_b"
    by (simp_all add: infeasible_A_def infeasible_b_def array2_def negate_rows_def
                      negate_entries_def)
  have 3: "two_phases key m n infeasible_c infeasible_tableau
             = Some (Inr (infeasible_tableau, False, True))" for m n
    by (rule two_phases_infeasible[OF infeasible_phase_one])
       (simp add: infeasible_tableau_def fl_defs)
  show ?thesis
    by (simp add: simplex_sizes_ok[OF 1] 2 3 infeasible_first_tableau)
qed

section \<open>The claims\<close>

text \<open>
  Claim C10. Every value returned by \<open>simplex\<close> sets at most one of its two flags: the
  returned pair (unbounded, infeasible) is never (True, True). The three \<open>return\<close>
  statements give (True, False), (False, True) and (unbounded, False).
\<close>

theorem simplex_flags_exclusive:
  "simplex key A b c = Some r \<Longrightarrow> result r = Inr (T, unbounded, infeasible)
   \<Longrightarrow> \<not> (unbounded \<and> infeasible)"
  by (auto simp: simplex_def two_phases_def Let_def shape_def
           split: if_splits option.splits sum.splits prod.splits)

theorem simplex_flags_exclusive_witness:
  "simplex id infeasible_A infeasible_b infeasible_c =
     Some \<lparr>array_A = infeasible_A, array_b = infeasible_b, array_c = infeasible_c,
           result = Inr (infeasible_tableau, False, True)\<rparr>
   \<and> \<not> (False \<and> True)"
  using simplex_flags_exclusive [OF infeasible_simplex [of id], of infeasible_tableau False True]
        infeasible_simplex [of id]
  by simp

subsection \<open>The entering column\<close>

definition first_negative :: "float64 list \<Rightarrow> nat \<Rightarrow> bool" where
  "first_negative reducedCost p =
     (p < length reducedCost \<and> flt (reducedCost ! p) (Fin 0)
      \<and> (\<forall>j<p. \<not> flt (reducedCost ! j) (Fin 0)))"

lemma takeWhile_not_first:
  "True \<in> set bs \<Longrightarrow>
   bs ! length (takeWhile (\<lambda>b. \<not> b) bs) \<and> (\<forall>j<length (takeWhile (\<lambda>b. \<not> b) bs). \<not> bs ! j)"
proof (induction bs)
  case Nil thus ?case by simp
next
  case (Cons b bs)
  show ?case
  proof (cases b)
    case True thus ?thesis by simp
  next
    case False
    with Cons have ih: "bs ! length (takeWhile (\<lambda>b. \<not> b) bs)"
      "\<forall>j<length (takeWhile (\<lambda>b. \<not> b) bs). \<not> bs ! j" by auto
    show ?thesis using False ih by (auto simp: nth_Cons split: nat.splits)
  qed
qed

lemma np_argmax_first:
  assumes "np_any (map P xs)"
  shows "np_argmax (map P xs) < length xs \<and> P (xs ! np_argmax (map P xs))
         \<and> (\<forall>j<np_argmax (map P xs). \<not> P (xs ! j))"
proof -
  let ?k = "np_argmax (map P xs)"
  have lt: "?k < length xs" using np_argmax_less[OF assms] by simp
  have k: "?k = length (takeWhile (\<lambda>b. \<not> b) (map P xs))" using assms by (simp add: np_argmax_def)
  from assms have "True \<in> set (map P xs)" by (simp add: np_any_def)
  from takeWhile_not_first[OF this] lt show ?thesis unfolding k by auto
qed

definition dantzig_tableau :: ndarray where
  "dantzig_tableau = array2 [[Fin 1, Fin 1, Fin 1], [Fin (- 1), Fin (- 5), Fin 0]]"

lemma dantzig_select:
  "simplexTableau dantzig_tableau = Inr (Some 0, Some 0, False, True)"
  by (simp add: simplexTableau_def dantzig_tableau_def Let_def np_defs fl_defs)

lemma dantzig_basis_select:
  "basis_select [Fin 1] [[Fin 1, Fin 1]] [Fin (- 1), Fin (- 5)] = Inr (Some (0, 0, Fin 1))"
  by (simp add: basis_select_def Let_def np_defs fl_defs)

text \<open>
  Claim C1. For every tableau whose objective row (without the right-hand side) has a
  negative entry, the selector (\<open>simplexTableau\<close>, and likewise the basis-form simplex)
  chooses as entering column the first column attaining the most negative reduced cost.

  The code takes \<open>np.argmax(reducedCost < 0)\<close>: the first column whose reduced cost is
  negative, whatever its size. In \<open>dantzig_tableau\<close> the reduced costs are \<open>-1, -5\<close> and
  column 0 is chosen. The theorem is the claim as amended: the entering column is the
  first column with a negative reduced cost.
\<close>

theorem entering_column_first_negative:
  "(simplexTableau tableau = Inr (Some p, q, opt, bounded)
      \<longrightarrow> first_negative (butlast (last (rows tableau))) p)
   \<and> (basis_select xb minusd reducedCost = Inr (Some (p', q', step))
      \<longrightarrow> first_negative reducedCost p')"
proof (intro conjI impI)
  assume a: "simplexTableau tableau = Inr (Some p, q, opt, bounded)"
  let ?rc = "butlast (last (rows tableau))"
  from a have any: "np_any (map (\<lambda>x. flt x (Fin 0)) ?rc)"
    and p: "p = np_argmax (map (\<lambda>x. flt x (Fin 0)) ?rc)"
    by (auto simp: simplexTableau_def Let_def shape_def split: if_splits sum.splits)
  from np_argmax_first[OF any] show "first_negative ?rc p"
    by (simp add: first_negative_def p)
next
  assume a: "basis_select xb minusd reducedCost = Inr (Some (p', q', step))"
  from a have any: "np_any (map (\<lambda>x. flt x (Fin 0)) reducedCost)"
    and p: "p' = np_argmax (map (\<lambda>x. flt x (Fin 0)) reducedCost)"
    by (auto simp: basis_select_def Let_def split: if_splits sum.splits)
  from np_argmax_first[OF any] show "first_negative reducedCost p'"
    by (simp add: first_negative_def p)
qed

theorem entering_column_first_negative_witness:
  "simplexTableau dantzig_tableau = Inr (Some 0, Some 0, False, True)
   \<and> first_negative (butlast (last (rows dantzig_tableau))) 0
   \<and> basis_select [Fin 1] [[Fin 1, Fin 1]] [Fin (- 1), Fin (- 5)] = Inr (Some (0, 0, Fin 1))
   \<and> first_negative [Fin (- 1), Fin (- 5)] 0"
  using entering_column_first_negative [of dantzig_tableau 0 "Some 0" False True
          "[Fin 1]" "[[Fin 1, Fin 1]]" "[Fin (- 1), Fin (- 5)]" 0 0 "Fin 1"]
        dantzig_select dantzig_basis_select
  by simp

theorem entering_column_dantzig_counterexample:
  "simplexTableau dantzig_tableau = Inr (Some 0, Some 0, False, True)
   \<and> flt (entry dantzig_tableau 1 1) (entry dantzig_tableau 1 0)
   \<and> basis_select [Fin 1] [[Fin 1, Fin 1]] [Fin (- 1), Fin (- 5)] = Inr (Some (0, 0, Fin 1))
   \<and> flt ([Fin (- 1), Fin (- 5)] ! 1) ([Fin (- 1), Fin (- 5)] ! 0)"
  using dantzig_select dantzig_basis_select
  by (simp add: dantzig_tableau_def array2_def entry_def)

subsection \<open>The pivot operator\<close>

text \<open>With both indices in range the guards pass and the negative-index branches are not
  taken.\<close>

lemma pivoting_in_range:
  assumes "0 \<le> q" "q < int (length (rows T))" "0 \<le> p" "p < int (ncols T)"
  shows "pivoting T p q =
     (if flt (fabs (entry T (nat q) (nat p))) eps then Inl PivotTooClose
      else Inr (T\<lparr>rows :=
                  map (\<lambda>i. if i = nat q then map (\<lambda>x. fdiv x (entry T (nat q) (nat p))) (rows T ! nat q)
                            else map2 (\<lambda>x y. fsub x (fdiv (fmul (entry T i (nat p)) y) (entry T (nat q) (nat p))))
                                   (rows T ! i) (rows T ! nat q))
                      [0..<length (rows T)]\<rparr>))"
proof -
  have "(int i = q) = (i = nat q)" for i using assms(1) by auto
  thus ?thesis using assms by (simp add: pivoting_def shape_def Let_def)
qed

definition degenerate_store :: store where
  "degenerate_store = [array2 [[Fin 0, Fin 1], [Fin 1, Fin 1]]]"

text \<open>
  Claim C7. For every tableau and every in-range pivot position \<open>(p, q)\<close>, \<open>pivoting\<close>
  raises the degenerate-pivot error if and only if the pivot entry has absolute value
  below \<open>eps\<close>, and in that case no pivoted tableau is produced and the tableau is
  unchanged: the store after the call is the store before it.
\<close>

theorem pivoting_degenerate_iff:
  assumes "r < length s" "0 \<le> q" "q < int (length (rows (s ! r)))"
    "0 \<le> p" "p < int (ncols (s ! r))"
  shows "(snd (pivoting_call s r p q) = Inl PivotTooClose
            \<longleftrightarrow> flt (fabs (entry (s ! r) (nat q) (nat p))) eps)
       \<and> (snd (pivoting_call s r p q) = Inl PivotTooClose
            \<longrightarrow> fst (pivoting_call s r p q) = s)"
  using assms(2-5) by (simp add: pivoting_call_def pivoting_in_range)

theorem pivoting_degenerate_iff_witness:
  "snd (pivoting_call degenerate_store 0 0 0) = Inl PivotTooClose
   \<and> flt (fabs (entry (degenerate_store ! 0) 0 0)) eps
   \<and> fst (pivoting_call degenerate_store 0 0 0) = degenerate_store"
  using pivoting_degenerate_iff [of 0 degenerate_store 0 0]
  by (simp add: degenerate_store_def array2_def entry_def eps_def)

text \<open>The double nearest to \<open>0.1\<close>, and what rounding makes of \<open>0.1 * 3 / 3\<close>.\<close>

definition tenth :: float64 where
  "tenth = Fin (3602879701896397 / 36028797018963968)"

lemma tenth_double: "is_double tenth"
  using round64_exact [of "3602879701896397 / 36028797018963968" 3602879701896397 "- 55"]
  by (simp add: is_double_def tenth_def power_int_minus)

lemma tenth_times_3:
  "round64 (10808639105689191 / 36028797018963968) = Fin (1351079888211149 / 4503599627370496)"
  by (subst round64_binade[where e = "- 2"])
     (simp_all add: rnd_even_def Let_def power_int_minus floor_rat_numeral_div)

lemma tenth_times_3_by_3:
  "round64 (1351079888211149 / 13510798882111488) = Fin (7205759403792795 / 72057594037927936)"
  by (subst round64_binade[where e = "- 4"])
     (simp_all add: rnd_even_def Let_def power_int_minus floor_rat_numeral_div)

lemma tenth_residue:
  "round64 (- (1 / 72057594037927936)) = Fin (- (1 / 72057594037927936))"
  using round64_exact [of "- (1 / 72057594037927936)" "- 1" "- 56"]
  by (simp add: power_int_minus)

text \<open>Every finite result of a rounding is a double.\<close>

lemma rnd_even_le: "z \<le> of_int n \<Longrightarrow> rnd_even z \<le> n"
proof -
  assume z: "z \<le> of_int n"
  hence fl: "\<lfloor>z\<rfloor> \<le> n" by (simp add: floor_le_iff)
  show ?thesis
  proof (cases "\<lfloor>z\<rfloor> = n")
    case True
    hence "of_int n \<le> z" by (metis of_int_floor_le)
    with z have "z = of_int n" by simp
    thus ?thesis by (simp add: rnd_even_of_int)
  next
    case False
    with fl have "\<lfloor>z\<rfloor> + 1 \<le> n" by simp
    thus ?thesis using fl by (simp add: rnd_even_def Let_def)
  qed
qed

lemma rnd_even_ge: "of_int n \<le> z \<Longrightarrow> n \<le> rnd_even z"
proof -
  assume "of_int n \<le> z"
  hence "n \<le> \<lfloor>z\<rfloor>" by (simp add: le_floor_iff)
  thus ?thesis by (simp add: rnd_even_def Let_def)
qed

lemma round64_idem:
  assumes "round64 x = Fin y"
  shows "round64 y = Fin y"
proof (cases "x = 0")
  case True
  with assms show ?thesis by (simp add: round64_def)
next
  case False
  define a where "a = \<bar>x\<bar>"
  define e where "e = floor_log2 a"
  define E where "E = max e (- 1022) - 52"
  define k where "k = rnd_even (a / 2 powi E)"
  define r where "r = of_int k * (2::rat) powi E"
  have apos: "0 < a" using False by (simp add: a_def)
  from assms False have nov: "\<not> 2 powi 1024 \<le> r" and y: "y = (if 0 < x then r else - r)"
    unfolding round64_def Let_def a_def [symmetric] e_def [symmetric] E_def [symmetric]
      k_def [symmetric] r_def [symmetric]
    by (auto split: if_splits)
  from floor_log2_bounds[OF apos] have eb: "2 powi e \<le> a" "a < 2 powi (e + 1)"
    by (simp_all add: e_def)
  have upos: "(0::rat) < 2 powi E" by simp
  have k0: "0 \<le> k"
  proof -
    have "of_int 0 \<le> a / 2 powi E" using apos by simp
    thus ?thesis unfolding k_def by (rule rnd_even_ge)
  qed
  have Elow: "- 1074 \<le> E" by (simp add: E_def)
  have k53: "k \<le> 2 ^ 53"
  proof -
    have "e + 1 \<le> E + 53" by (simp add: E_def)
    hence "(2::rat) powi (e + 1) \<le> 2 powi (E + 53)" by (simp only: powi2_le_iff)
    with eb(2) have "a < 2 powi (E + 53)" by simp
    also have "\<dots> = 2 powi E * 2 ^ 53" by (simp add: power_int_add)
    finally have "a / 2 powi E < 2 ^ 53" using upos by (simp add: field_simps)
    hence "a / 2 powi E \<le> of_int (2 ^ 53)" by simp
    thus ?thesis unfolding k_def by (rule rnd_even_le)
  qed
  have rnn: "round64 r = Fin r"
  proof (cases "k = 0")
    case True thus ?thesis by (simp add: r_def round64_0)
  next
    case kpos: False
    have Ehigh: "E + 53 \<le> 1024"
    proof (rule ccontr)
      assume "\<not> E + 53 \<le> 1024"
      hence big: "972 \<le> E" by simp
      hence "E = e - 52" by (simp add: E_def split: if_splits)
      hence "(2::rat) powi (E + 52) \<le> a" using eb(1) by simp
      hence "2 powi E * (2::rat) ^ 52 \<le> a" by (simp add: power_int_add)
      hence "of_int (2 ^ 52) \<le> a / 2 powi E" using upos by (simp add: field_simps)
      hence "2 ^ 52 \<le> k" unfolding k_def by (rule rnd_even_ge)
      hence "(of_int (2 ^ 52) :: rat) \<le> of_int k" by (simp only: of_int_le_iff)
      hence "(2::rat) ^ 52 * 2 powi E \<le> r" unfolding r_def
        by (intro mult_right_mono) simp_all
      moreover have "(2::rat) powi 1024 \<le> 2 powi (52 + E)" using big by (simp only: powi2_le_iff) 
      hence "(2::rat) powi 1024 \<le> 2 ^ 52 * 2 powi E" by (simp add: power_int_add)
      ultimately show False using nov by simp
    qed
    show ?thesis
    proof (cases "k = 2 ^ 53")
      case True
      have "r = of_int (2 ^ 52) * 2 powi (E + 1)"
        by (simp add: r_def True power_int_add)
      moreover have "E + 1 \<le> 971"
      proof -
        have "(2::rat) powi (53 + E) = r" by (simp add: r_def True power_int_add)
        with nov have "(2::rat) powi (53 + E) < 2 powi 1024" by simp
        hence "53 + E < 1024" by (simp only: powi2_less_iff)
        thus ?thesis by simp
      qed
      ultimately show ?thesis using Elow
        by (intro round64_exact[where k = "2 ^ 52" and e = "E + 1"]) simp_all
    next
      case False
      with k53 k0 have "\<bar>k\<bar> < 2 ^ 53" by simp
      thus ?thesis using Elow Ehigh
        by (intro round64_exact[where k = k and e = E]) (simp_all add: r_def)
    qed
  qed
  show ?thesis
  proof (cases "0 < x")
    case True thus ?thesis using rnn y by simp
  next
    case False
    have "round64 (- r) = Fin (- r)" using rnn
      by (auto simp: round64_def Let_def split: if_splits)
    thus ?thesis using False y by simp
  qed
qed

lemma is_double_round64: "is_double (round64 x)"
  by (cases "round64 x") (simp_all add: is_double_def round64_idem)

lemma is_double_fadd: "is_double (fadd x (fneg y))"
  by (cases x; cases y) (simp_all add: is_double_round64, simp_all add: is_double_def)

lemma is_double_fsub: "is_double (fsub x y)"
  unfolding fsub_def by (rule is_double_fadd)

lemma is_double_fdiv: "is_double (fdiv x y)"
  by (cases x; cases y) (simp_all add: is_double_round64, simp_all add: is_double_def round64_0)

lemma fdiv_self: "x \<noteq> 0 \<Longrightarrow> fdiv (Fin x) (Fin x) = Fin 1"
  by (simp add: round64_1)

lemma fsub_self: "fsub (Fin a) (Fin a) = Fin 0"
  by (simp add: fsub_def round64_0)

text \<open>Two different doubles have a difference of at least \<open>2 powi (- 1074)\<close>, which does
  not round to zero: a difference of doubles is zero only when they are equal.\<close>

lemma round64_nonzero:
  assumes "2 powi (- 1074) \<le> \<bar>x\<bar>"
  shows "round64 x \<noteq> Fin 0"
proof -
  define a where "a = \<bar>x\<bar>"
  define e where "e = max (floor_log2 a) (- 1022)"
  define u where "u = (2::rat) powi (e - 52)"
  have apos: "0 < a" using assms unfolding a_def
    by (smt (verit) zero_less_power_int zero_less_numeral less_le_trans)
  have x0: "x \<noteq> 0" using apos a_def by auto
  have upos: "0 < u" by (simp add: u_def)
  have "u \<le> a"
  proof (cases "- 1022 \<le> floor_log2 a")
    case True
    hence "e = floor_log2 a" by (simp add: e_def)
    hence "2 powi e \<le> a" using floor_log2_bounds[OF apos] by simp
    moreover have "u \<le> 2 powi e" unfolding u_def by (simp only: powi2_le_iff)
    ultimately show ?thesis by simp
  next
    case False
    hence "e = - 1022" by (simp add: e_def)
    hence "u = 2 powi (- 1074)" by (simp add: u_def)
    thus ?thesis using assms by (simp add: a_def)
  qed
  hence "of_int 1 \<le> a / u" using upos by (simp add: field_simps)
  hence "1 \<le> rnd_even (a / u)" by (rule rnd_even_ge)
  hence "(1::rat) \<le> of_int (rnd_even (a / u))" by simp
  hence "0 < of_int (rnd_even (a / u)) * u" using upos by simp
  thus ?thesis using x0
    by (auto simp: round64_def Let_def a_def [symmetric] e_def [symmetric] u_def [symmetric])
qed

lemma double_grid:
  assumes "round64 x = Fin x"
  shows "\<exists>k::int. x = of_int k * 2 powi (- 1074)"
proof (cases "x = 0")
  case True thus ?thesis by (intro exI[of _ 0]) (simp only: of_int_0 mult_zero_left)
next
  case False
  define a where "a = \<bar>x\<bar>"
  define e where "e = max (floor_log2 a) (- 1022)"
  define u where "u = (2::rat) powi (e - 52)"
  define K where "K = rnd_even (a / u)"
  define n where "n = nat (e - 52 + 1074)"
  define g where "g = (2::rat) powi (- 1074)"
  have "- 1022 \<le> e" unfolding e_def by (rule max.cobounded2)
  hence e: "e - 52 = int n + (- 1074)" unfolding n_def by linarith
  have "(2::rat) powi (int n + (- 1074)) = 2 powi int n * 2 powi (- 1074)"
    by (rule power_int_add) simp
  hence u: "u = of_int (2 ^ n) * g"
    unfolding u_def e g_def by (simp only: power_int_of_nat of_int_power of_int_numeral)
  from assms False have "x = of_int K * u \<or> x = - (of_int K * u)"
    by (auto simp: round64_def Let_def a_def [symmetric] e_def [symmetric] u_def [symmetric]
        K_def [symmetric] split: if_splits)
  thus ?thesis
  proof
    assume "x = of_int K * u"
    hence "x = of_int (K * 2 ^ n) * g" by (simp add: u)
    thus ?thesis unfolding g_def by blast
  next
    assume "x = - (of_int K * u)"
    hence "x = of_int (- K * 2 ^ n) * g" by (simp add: u)
    thus ?thesis unfolding g_def by blast
  qed
qed

lemma double_difference:
  assumes "round64 a = Fin a" "round64 b = Fin b" "a \<noteq> b"
  shows "round64 (a - b) \<noteq> Fin 0"
proof -
  from double_grid[OF assms(1)] obtain k where k: "a = of_int k * 2 powi (- 1074)" by blast
  from double_grid[OF assms(2)] obtain l where l: "b = of_int l * 2 powi (- 1074)" by blast
  have kl: "k \<noteq> l" using assms(3) k l by auto
  have d: "a - b = of_int (k - l) * 2 powi (- 1074)" by (simp add: k l algebra_simps)
  have "1 \<le> \<bar>k - l\<bar>" using kl by simp
  hence "(1::rat) \<le> \<bar>of_int (k - l)\<bar>" by (metis of_int_abs of_int_1_le_iff)
  hence "1 * 2 powi (- 1074) \<le> \<bar>of_int (k - l)\<bar> * (2::rat) powi (- 1074)"
    by (intro mult_right_mono) simp_all
  hence "2 powi (- 1074) \<le> \<bar>a - b\<bar>" by (simp add: d abs_mult)
  thus ?thesis by (rule round64_nonzero)
qed

lemma fsub_zero_iff:
  assumes "is_double x" "is_double y"
  shows "fsub x y = Fin 0 \<longleftrightarrow> finite64 x \<and> y = x"
proof (cases x)
  case (Fin a)
  show ?thesis
  proof (cases y)
    case (Fin b)
    have "round64 (a - b) = Fin 0 \<longleftrightarrow> b = a"
    proof
      assume z: "round64 (a - b) = Fin 0"
      show "b = a"
      proof (rule ccontr)
        assume "b \<noteq> a"
        hence "a \<noteq> b" by simp
        from double_difference[OF _ _ this] assms z show False
          by (simp add: is_double_def \<open>x = Fin a\<close> Fin)
      qed
    next
      assume "b = a" thus "round64 (a - b) = Fin 0" by (simp add: round64_0)
    qed
    thus ?thesis by (simp add: fsub_def \<open>x = Fin a\<close> Fin finite64_def)
  qed (simp_all add: fsub_def Fin finite64_def)
next
  case PInf thus ?thesis by (cases y) (simp_all add: fsub_def finite64_def)
next
  case NInf thus ?thesis by (cases y) (simp_all add: fsub_def finite64_def)
next
  case NaN thus ?thesis by (cases y) (simp_all add: fsub_def finite64_def)
qed

definition finite_array :: "ndarray \<Rightarrow> bool" where
  "finite_array T = list_all (list_all finite64) (rows T)"

definition double_array :: "ndarray \<Rightarrow> bool" where
  "double_array T = list_all (list_all is_double) (rows T)"

definition resid_tableau :: ndarray where
  "resid_tableau = array2 [[Fin 3, Fin 0], [tenth, Fin 0]]"

definition resid_pivoted :: ndarray where
  "resid_pivoted = array2 [[Fin 1, Fin 0], [Fin (- (1 / 72057594037927936)), Fin 0]]"

lemma resid_pivoting: "pivoting resid_tableau 0 0 = Inr resid_pivoted"
  by (simp add: pivoting_in_range resid_tableau_def resid_pivoted_def array2_def entry_def
        eps_def round64_0 round64_1 tenth_def tenth_times_3 tenth_times_3_by_3 tenth_residue
        fsub_def upt_conv_Cons)

lemma resid_pivoting_again:
  "pivoting resid_pivoted 0 0 = Inr (array2 [[Fin 1, Fin 0], [Fin 0, Fin 0]])"
  by (simp add: pivoting_in_range resid_pivoted_def array2_def entry_def
        eps_def round64_0 round64_1 tenth_residue fsub_def upt_conv_Cons)

definition small_tableau :: ndarray where
  "small_tableau = array2 [[Fin 2, Fin 4], [Fin 1, Fin 3]]"

lemma small_pivoting: "pivoting small_tableau 0 0 = Inr (array2 [[Fin 1, Fin 2], [Fin 0, Fin 1]])"
  by (simp add: pivoting_in_range small_tableau_def array2_def entry_def
        fl_defs upt_conv_Cons)

definition small_pivoted :: ndarray where
  "small_pivoted = array2 [[Fin 1, Fin 2], [Fin 0, Fin 1]]"

lemma pivoting_doubles:
  assumes "0 \<le> q" "q < int (length (rows T))" "0 \<le> p" "p < int (ncols T)"
    "pivoting T p q = Inr T1"
  shows "list_all (list_all is_double) (rows T1)"
proof -
  from assms have "rows T1 =
      map (\<lambda>i. if i = nat q then map (\<lambda>x. fdiv x (entry T (nat q) (nat p))) (rows T ! nat q)
                else map2 (\<lambda>x y. fsub x (fdiv (fmul (entry T i (nat p)) y) (entry T (nat q) (nat p))))
                       (rows T ! i) (rows T ! nat q))
          [0..<length (rows T)]"
    by (auto simp: pivoting_in_range split: if_splits)
  thus ?thesis
    by (auto simp: list_all_iff is_double_fdiv is_double_fsub)
qed

lemma finite_double_div_one: "finite64 x \<Longrightarrow> is_double x \<Longrightarrow> fdiv x (Fin 1) = x"
  by (cases x) (simp_all add: finite64_def is_double_def)

lemma finite_double_sub_zero:
  "finite64 x \<Longrightarrow> is_double x \<Longrightarrow> finite64 y \<Longrightarrow>
   fsub x (fdiv (fmul (Fin 0) y) (Fin 1)) = x"
  by (cases x; cases y) (simp_all add: finite64_def is_double_def fsub_def round64_0)

definition infinite_column :: ndarray where
  "infinite_column = array2 [[Fin 1, Fin 0], [PInf, Fin 0]]"

lemma infinite_column_pivoting:
  "pivoting infinite_column 0 0 = Inr (array2 [[Fin 1, Fin 0], [NaN, NaN]])"
  by (simp add: pivoting_in_range infinite_column_def array2_def entry_def
        eps_def round64_0 round64_1 fsub_def upt_conv_Cons)

definition huge :: float64 where
  "huge = Fin (2 ^ 1023)"

definition overflow_column :: ndarray where
  "overflow_column = array2 [[Fin 2, Fin 0], [huge, Fin 0]]"

lemma huge_double: "is_double huge"
  using round64_exact [of "2 ^ 1023" "2 ^ 52" 971] by (simp add: is_double_def huge_def)

lemma huge_twice: "fmul huge (Fin 2) = PInf"
  unfolding huge_def
  apply simp
  apply (subst round64_binade[where e = 1024])
  apply (simp_all add: rnd_even_def Let_def)
  done

lemma overflow_column_pivoting:
  "pivoting overflow_column 0 0 = Inr (array2 [[Fin 1, Fin 0], [NInf, Fin 0]])"
proof -
  have 1: "fsub huge (fdiv (fmul huge (Fin 2)) (Fin 2)) = NInf"
    by (simp only: huge_twice) (simp add: fsub_def huge_def)
  have 2: "fsub (Fin 0) (fdiv (fmul huge (Fin 0)) (Fin 2)) = Fin 0"
    by (simp add: huge_def fsub_def round64_0)
  have 3: "fdiv (Fin 2) (Fin 2) = Fin 1" "fdiv (Fin 0) (Fin 2) = Fin 0"
    by (simp_all add: round64_0 round64_1)
  have 4: "\<not> flt (fabs (Fin 2)) eps" by (simp add: eps_def)
  show ?thesis
    by (simp add: pivoting_in_range overflow_column_def array2_def entry_def upt_conv_Cons
          1 2 3 4 del: fmul.simps fdiv.simps fabs.simps flt.simps)
qed

text \<open>
  Claim C5. For every tableau \<open>T\<close> and in-range pivot position \<open>(p, q)\<close> whose pivot entry
  has absolute value at least \<open>eps\<close>, \<open>pivoting\<close> returns a new tableau in which row \<open>q\<close>
  is row \<open>q\<close> of \<open>T\<close> divided by the pivot, so that entry \<open>(q, p)\<close> is 1, and every other
  row \<open>i\<close> is row \<open>i\<close> of \<open>T\<close> minus \<open>T[i][p]\<close> times the divided pivot row, so that column
  \<open>p\<close> is zero outside row \<open>q\<close>.

  The code computes \<open>T[i][j] - (T[i][p] * T[q][j]) / pivot\<close> in double arithmetic, and
  the product and the quotient are rounded: in \<open>resid_tableau\<close>, with pivot 3 and
  \<open>T[1][0] = 0.1\<close>, entry \<open>(1, 0)\<close> of the result is \<open>- 2 powi (- 56)\<close>. The theorem is the
  claim as amended, for a tableau of doubles: the result is a new array of the same
  shape, row \<open>q\<close> is the rounded quotient of row \<open>q\<close> by the pivot, entry \<open>(q, p)\<close> is 1
  for a finite pivot, every other entry is \<open>T[i][j] - (T[i][p] * T[q][j]) / pivot\<close> with
  each operation rounded, and entry \<open>(i, p)\<close> is zero if and only if \<open>T[i][p]\<close> is finite
  and \<open>(T[i][p] * pivot) / pivot\<close> gives \<open>T[i][p]\<close> back. In every other case the entry
  is not zero: it is a rounding residue as above, an infinity (\<open>overflow_column\<close>, where
  the product overflows) or a NaN (\<open>infinite_column\<close>, where \<open>T[i][p]\<close> is infinite).
\<close>

theorem pivoting_result:
  assumes "r < length s" "wf_array (s ! r)" "double_array (s ! r)"
    "0 \<le> q" "q < int (length (rows (s ! r)))" "0 \<le> p" "p < int (ncols (s ! r))"
    "fle eps (fabs (entry (s ! r) (nat q) (nat p)))"
  shows "\<exists>T'. pivoting_call s r p q = (s @ [T'], Inr (length s))
          \<and> shape T' = shape (s ! r)
          \<and> rows T' ! nat q = map (\<lambda>x. fdiv x (entry (s ! r) (nat q) (nat p))) (rows (s ! r) ! nat q)
          \<and> (finite64 (entry (s ! r) (nat q) (nat p)) \<longrightarrow> entry T' (nat q) (nat p) = Fin 1)
          \<and> (\<forall>i<length (rows (s ! r)). i \<noteq> nat q \<longrightarrow>
               (\<forall>j<ncols (s ! r). entry T' i j =
                  fsub (entry (s ! r) i j)
                    (fdiv (fmul (entry (s ! r) i (nat p)) (entry (s ! r) (nat q) j))
                          (entry (s ! r) (nat q) (nat p))))
               \<and> (entry T' i (nat p) = Fin 0 \<longleftrightarrow>
                    finite64 (entry (s ! r) i (nat p))
                    \<and> fdiv (fmul (entry (s ! r) i (nat p)) (entry (s ! r) (nat q) (nat p)))
                             (entry (s ! r) (nat q) (nat p)) = entry (s ! r) i (nat p)))"
proof -
  define T where "T = s ! r"
  define qi where "qi = nat q"
  define pi where "pi = nat p"
  define piv where "piv = entry T qi pi"
  define T' where "T' = T\<lparr>rows :=
                  map (\<lambda>i. if i = qi then map (\<lambda>x. fdiv x piv) (rows T ! qi)
                            else map2 (\<lambda>x y. fsub x (fdiv (fmul (entry T i pi) y) piv))
                                   (rows T ! i) (rows T ! qi))
                      [0..<length (rows T)]\<rparr>"
  have qi: "qi < length (rows T)" and pi: "pi < ncols T"
    using assms(4-7) by (simp_all add: qi_def pi_def T_def)
  have len: "length (rows T ! i) = ncols T" if "i < length (rows T)" for i
    using assms(2) that by (simp add: wf_array_def T_def list_all_length)
  have dbl: "is_double (entry T i pi)" if "i < length (rows T)" for i
    using assms(3) that pi len[OF that]
    by (simp add: double_array_def T_def [symmetric] list_all_length entry_def)
  have ge: "\<not> flt (fabs piv) eps"
    using assms(8) unfolding piv_def T_def qi_def pi_def eps_def
    by (cases "entry (s ! r) (nat q) (nat p)") auto
  have piv_eq: "pivoting T p q = Inr T'"
    using pivoting_in_range[of q T p] assms(4-7) ge
    by (simp add: T_def [symmetric] qi_def [symmetric] pi_def [symmetric] piv_def [symmetric] T'_def)
  have call: "pivoting_call s r p q = (s @ [T'], Inr (length s))"
    using piv_eq by (simp add: pivoting_call_def T_def)
  have shp: "shape T' = shape T" by (simp add: T'_def shape_def)
  have rowq: "rows T' ! qi = map (\<lambda>x. fdiv x piv) (rows T ! qi)"
    using qi by (simp add: T'_def)
  have one: "entry T' qi pi = Fin 1" if "finite64 piv"
  proof -
    from that obtain x where x: "piv = Fin x" by (cases piv) (simp_all add: finite64_def)
    with ge have "x \<noteq> 0" by (auto simp: eps_def)
    hence "fdiv piv piv = Fin 1" by (simp add: x round64_1)
    thus ?thesis using qi pi len[OF qi] by (simp add: entry_def rowq piv_def [symmetric])
        (simp add: piv_def entry_def)
  qed
  have other: "entry T' i j = fsub (entry T i j) (fdiv (fmul (entry T i pi) (entry T qi j)) piv)"
    if "i < length (rows T)" "i \<noteq> qi" "j < ncols T" for i j
    using that len[OF that(1)] len[OF qi] by (simp add: T'_def entry_def)
  have zero: "entry T' i pi = Fin 0 \<longleftrightarrow>
      finite64 (entry T i pi) \<and> fdiv (fmul (entry T i pi) piv) piv = entry T i pi"
    if "i < length (rows T)" "i \<noteq> qi" for i
  proof -
    have "entry T' i pi = fsub (entry T i pi) (fdiv (fmul (entry T i pi) piv) piv)"
      using other[OF that pi] by (simp add: piv_def)
    thus ?thesis
      by (simp only: fsub_zero_iff[OF dbl[OF that(1)] is_double_fdiv])
  qed
  show ?thesis
    apply (rule exI[of _ T'])
    using call shp rowq one other zero
    unfolding T_def [symmetric] qi_def [symmetric] pi_def [symmetric] piv_def [symmetric]
    by blast
qed

theorem pivoting_result_witness:
  "pivoting_call [small_tableau] 0 0 0 = ([small_tableau, small_pivoted], Inr 1)
   \<and> entry small_pivoted 0 0 = Fin 1 \<and> entry small_pivoted 1 0 = Fin 0"
  using pivoting_result [of 0 "[small_tableau]" 0 0] small_pivoting
  by (simp add: pivoting_call_def small_pivoted_def small_tableau_def array2_def entry_def
        wf_array_def double_array_def is_double_def round64_numeral round64_1 eps_def)

theorem pivoting_residue_counterexample:
  "is_double tenth \<and> fle eps (fabs (entry resid_tableau 0 0))
   \<and> pivoting resid_tableau 0 0 = Inr resid_pivoted
   \<and> entry resid_pivoted 1 0 = Fin (- (1 / 72057594037927936))"
  using tenth_double resid_pivoting
  by (simp add: resid_tableau_def resid_pivoted_def array2_def entry_def eps_def)

text \<open>
  Claim C9. For every tableau and in-range pivot position with a pivot of absolute value
  at least \<open>eps\<close>, pivoting the result again on the same position changes nothing:
  \<open>pivoting(pivoting(T, p, q), p, q) = pivoting(T, p, q)\<close>.

  In \<open>resid_tableau\<close> the first pivot leaves the rounding residue \<open>- 2 powi (- 56)\<close> in
  column \<open>p\<close>, and the second pivot removes it, so the two results differ. The theorem is
  the claim as amended: the second pivot changes nothing when the first result has
  finite entries only and its column \<open>p\<close> is zero outside row \<open>q\<close>.
\<close>

theorem repivoting_noop:
  assumes wf: "wf_array T"
    and rng: "0 \<le> q" "q < int (length (rows T))" "0 \<le> p" "p < int (ncols T)"
    and piv: "pivoting T p q = Inr T1"
    and fin: "finite_array T1"
    and col: "\<forall>i<length (rows T). i \<noteq> nat q \<longrightarrow> entry T1 i (nat p) = Fin 0"
  shows "pivoting T1 p q = Inr T1"
proof -
  define qi where "qi = nat q"
  define pi where "pi = nat p"
  define x where "x = entry T qi pi"
  have qi: "qi < length (rows T)" and pi: "pi < ncols T"
    using rng by (simp_all add: qi_def pi_def)
  have len: "length (rows T ! i) = ncols T" if "i < length (rows T)" for i
    using wf that by (simp add: wf_array_def list_all_length)
  from piv rng have ge: "\<not> flt (fabs x) eps"
    and T1: "T1 = T\<lparr>rows :=
        map (\<lambda>i. if i = qi then map (\<lambda>y. fdiv y x) (rows T ! qi)
                  else map2 (\<lambda>y z. fsub y (fdiv (fmul (entry T i pi) z) x)) (rows T ! i) (rows T ! qi))
            [0..<length (rows T)]\<rparr>"
    by (auto simp: pivoting_in_range qi_def pi_def x_def split: if_splits)
  have nrows: "length (rows T1) = length (rows T)" and nc: "ncols T1 = ncols T"
    by (simp_all add: T1)
  have len1: "length (rows T1 ! i) = ncols T" if "i < length (rows T)" for i
    using that len[OF that] len[OF qi] by (simp add: T1)
  have dbl: "is_double (rows T1 ! i ! j)" if "i < length (rows T)" "j < ncols T" for i j
    using pivoting_doubles[OF rng piv] that len1[OF that(1)] nrows
    by (simp add: list_all_length)
  have fn: "finite64 (rows T1 ! i ! j)" if "i < length (rows T)" "j < ncols T" for i j
    using fin that len1[OF that(1)] nrows by (simp add: finite_array_def list_all_length)
  have "entry T1 qi pi = fdiv x x"
    using qi pi len[OF qi] by (simp add: T1 entry_def x_def)
  moreover have "finite64 (entry T1 qi pi)" using fn[OF qi pi] by (simp add: entry_def)
  ultimately have one: "entry T1 qi pi = Fin 1"
    using ge by (cases x) (auto simp: finite64_def eps_def round64_1 split: if_splits)
  have zero: "entry T1 i pi = Fin 0" if "i < length (rows T)" "i \<noteq> qi" for i
    using col that by (simp add: qi_def pi_def)
  have rows_eq: "map (\<lambda>i. if i = qi then map (\<lambda>y. fdiv y (entry T1 qi pi)) (rows T1 ! qi)
                  else map2 (\<lambda>y z. fsub y (fdiv (fmul (entry T1 i pi) z) (entry T1 qi pi)))
                         (rows T1 ! i) (rows T1 ! qi))
            [0..<length (rows T1)] = rows T1"
  proof (rule nth_equalityI)
    show "length (map (\<lambda>i. if i = qi then map (\<lambda>y. fdiv y (entry T1 qi pi)) (rows T1 ! qi)
                  else map2 (\<lambda>y z. fsub y (fdiv (fmul (entry T1 i pi) z) (entry T1 qi pi)))
                         (rows T1 ! i) (rows T1 ! qi))
            [0..<length (rows T1)]) = length (rows T1)" by simp
  next
    fix i
    assume "i < length (map (\<lambda>i. if i = qi then map (\<lambda>y. fdiv y (entry T1 qi pi)) (rows T1 ! qi)
                  else map2 (\<lambda>y z. fsub y (fdiv (fmul (entry T1 i pi) z) (entry T1 qi pi)))
                         (rows T1 ! i) (rows T1 ! qi))
            [0..<length (rows T1)])"
    hence i: "i < length (rows T)" by (simp add: nrows)
    show "map (\<lambda>i. if i = qi then map (\<lambda>y. fdiv y (entry T1 qi pi)) (rows T1 ! qi)
                  else map2 (\<lambda>y z. fsub y (fdiv (fmul (entry T1 i pi) z) (entry T1 qi pi)))
                         (rows T1 ! i) (rows T1 ! qi))
            [0..<length (rows T1)] ! i = rows T1 ! i"
    proof (cases "i = qi")
      case True
      have "map (\<lambda>y. fdiv y (Fin 1)) (rows T1 ! qi) = rows T1 ! qi"
        by (rule nth_equalityI)
           (simp_all add: len1[OF qi] finite_double_div_one fn[OF qi] dbl[OF qi])
      thus ?thesis using True i by (simp add: nrows one)
    next
      case False
      have "map2 (\<lambda>y z. fsub y (fdiv (fmul (Fin 0) z) (Fin 1))) (rows T1 ! i) (rows T1 ! qi)
              = rows T1 ! i"
        by (rule nth_equalityI)
           (simp_all add: len1[OF qi] len1[OF i] finite_double_sub_zero fn[OF qi] fn[OF i] dbl[OF i])
      thus ?thesis using False i by (simp add: nrows one zero)
    qed
  qed
  have ge1: "\<not> flt (fabs (entry T1 qi pi)) eps" by (simp add: one eps_def)
  have "pivoting T1 p q = Inr (T1\<lparr>rows := rows T1\<rparr>)"
    using rng ge1 [unfolded qi_def pi_def] rows_eq [unfolded qi_def pi_def]
    by (simp add: pivoting_in_range nrows nc)
  thus ?thesis by simp
qed

theorem repivoting_noop_witness:
  "pivoting small_tableau 0 0 = Inr small_pivoted
   \<and> pivoting small_pivoted 0 0 = Inr small_pivoted"
proof -
  have 1: "wf_array small_tableau" by (simp add: wf_array_def small_tableau_def array2_def)
  have 2: "pivoting small_tableau 0 0 = Inr small_pivoted"
    using small_pivoting by (simp add: small_pivoted_def)
  have 3: "finite_array small_pivoted"
    by (simp add: finite_array_def small_pivoted_def array2_def finite64_def)
  have 4: "\<forall>i<length (rows small_tableau). i \<noteq> nat 0 \<longrightarrow> entry small_pivoted i (nat 0) = Fin 0"
    by (auto simp: small_tableau_def small_pivoted_def array2_def entry_def less_Suc_eq)
  have "pivoting small_pivoted 0 0 = Inr small_pivoted"
    by (rule repivoting_noop[OF 1 _ _ _ _ 2 3 4])
       (simp_all add: small_tableau_def array2_def)
  with 2 show ?thesis by simp
qed

theorem repivoting_residue_counterexample:
  "pivoting resid_tableau 0 0 = Inr resid_pivoted
   \<and> pivoting resid_pivoted 0 0 = Inr (array2 [[Fin 1, Fin 0], [Fin 0, Fin 0]])
   \<and> resid_pivoted \<noteq> array2 [[Fin 1, Fin 0], [Fin 0, Fin 0]]"
  using resid_pivoting resid_pivoting_again
  by (simp add: resid_pivoted_def array2_def)

subsection \<open>The leaving row\<close>

text \<open>On values that are not NaN, \<open>np.argmin\<close> returns the first position of the minimum.\<close>

lemma fle_refl: "x \<noteq> NaN \<Longrightarrow> fle x x"
  by (cases x) simp_all

lemma not_fle_iff: "x \<noteq> NaN \<Longrightarrow> y \<noteq> NaN \<Longrightarrow> (\<not> fle x y) = flt y x"
  by (cases x; cases y) auto

lemma flt_fle_trans: "flt x y \<Longrightarrow> fle y z \<Longrightarrow> flt x z"
  by (cases x; cases y; cases z) auto

lemma flt_imp_fle: "flt x y \<Longrightarrow> fle x y"
  by (cases x; cases y) auto

lemma fle_trans: "fle x y \<Longrightarrow> fle y z \<Longrightarrow> fle x z"
  by (cases x; cases y; cases z) auto

definition first_min :: "float64 list \<Rightarrow> nat \<Rightarrow> bool" where
  "first_min xs q = (q < length xs \<and> (\<forall>k<length xs. fle (xs ! q) (xs ! k))
                     \<and> (\<forall>k<q. flt (xs ! q) (xs ! k)))"

lemma argmin_scan_first_min:
  assumes "\<forall>x\<in>set xs. x \<noteq> NaN" "mp \<noteq> NaN" "first_min ys mi" "ys ! mi = mp"
  shows "first_min (ys @ xs) (argmin_scan mp mi (length ys) xs)"
  using assms
proof (induction xs arbitrary: mp mi ys)
  case Nil
  thus ?case by simp
next
  case (Cons x xs)
  have x: "x \<noteq> NaN" using Cons.prems(1) by simp
  have mi: "mi < length ys" using Cons.prems(3) by (simp add: first_min_def)
  show ?case
  proof (cases "fge x mp")
    case True
    hence le: "fle mp x" by (simp add: fge_def)
    have "first_min (ys @ [x]) mi"
      using Cons.prems(3,4) le mi
      by (auto simp: first_min_def nth_append less_Suc_eq)
    moreover have "(ys @ [x]) ! mi = mp" using mi Cons.prems(4) by (simp add: nth_append)
    ultimately have "first_min ((ys @ [x]) @ xs) (argmin_scan mp mi (length (ys @ [x])) xs)"
      using Cons.prems(1,2) by (intro Cons.IH) simp_all
    thus ?thesis using True by simp
  next
    case False
    hence lt: "flt x mp" using not_fle_iff[OF Cons.prems(2) x] by (simp add: fge_def)
    have "first_min (ys @ [x]) (length ys)"
      unfolding first_min_def
    proof (intro conjI allI impI)
      show "length ys < length (ys @ [x])" by simp
    next
      fix k assume "k < length (ys @ [x])"
      hence "k < length ys \<or> k = length ys" by auto
      thus "fle ((ys @ [x]) ! length ys) ((ys @ [x]) ! k)"
      proof
        assume k: "k < length ys"
        hence "fle mp (ys ! k)" using Cons.prems(3,4) by (auto simp: first_min_def)
        with lt have "flt x (ys ! k)" by (rule flt_fle_trans)
        thus ?thesis using k by (simp add: nth_append flt_imp_fle)
      next
        assume "k = length ys"
        thus ?thesis using x by (simp add: fle_refl)
      qed
    next
      fix k assume k: "k < length ys"
      hence "fle mp (ys ! k)" using Cons.prems(3,4) by (auto simp: first_min_def)
      with lt have "flt x (ys ! k)" by (rule flt_fle_trans)
      thus "flt ((ys @ [x]) ! length ys) ((ys @ [x]) ! k)" using k by (simp add: nth_append)
    qed
    moreover have "(ys @ [x]) ! length ys = x" by simp
    ultimately have "first_min ((ys @ [x]) @ xs) (argmin_scan x (length ys) (length (ys @ [x])) xs)"
      using Cons.prems(1) x by (intro Cons.IH) simp_all
    thus ?thesis using False x by simp
  qed
qed

lemma np_argmin_first_min:
  assumes "xs \<noteq> []" "\<forall>x\<in>set xs. x \<noteq> NaN"
  shows "\<exists>q. np_argmin xs = Inr q \<and> first_min xs q"
proof -
  from assms(1) obtain x ys where xs: "xs = x # ys" by (cases xs) auto
  have x: "x \<noteq> NaN" using assms(2) xs by simp
  have "first_min [x] 0" using x by (simp add: first_min_def fle_refl)
  hence "first_min ([x] @ ys) (argmin_scan x 0 (length [x]) ys)"
    using assms(2) x xs by (intro argmin_scan_first_min) simp_all
  thus ?thesis using x by (simp add: np_argmin_def xs)
qed

text \<open>The entering column \<open>p\<close>, the rows that take part in the ratio test, and their ratios.\<close>

definition entering :: "ndarray \<Rightarrow> nat" where
  "entering T = np_argmax (map (\<lambda>x. flt x (Fin 0)) (butlast (last (rows T))))"

definition qualifies :: "ndarray \<Rightarrow> nat \<Rightarrow> nat \<Rightarrow> bool" where
  "qualifies T p k = fgt (entry T k p) (Fin 0)"

definition ratio :: "ndarray \<Rightarrow> nat \<Rightarrow> nat \<Rightarrow> float64" where
  "ratio T p k = fdiv (last (rows T ! k)) (entry T k p)"

definition min_ratio_row :: "ndarray \<Rightarrow> nat \<Rightarrow> nat \<Rightarrow> bool" where
  "min_ratio_row T p q =
     (q < length (rows T) - 1 \<and> qualifies T p q
      \<and> (\<forall>k<length (rows T) - 1. qualifies T p k \<longrightarrow> fle (ratio T p q) (ratio T p k))
      \<and> (\<forall>k<q. qualifies T p k \<longrightarrow> flt (ratio T p q) (ratio T p k)))"

lemma simplexTableau_steps:
  assumes "np_any (map (\<lambda>x. flt x (Fin 0)) (butlast (last (rows T))))" "0 < length (rows T) - 1"
  shows "simplexTableau T =
     (case np_argmin (map (\<lambda>k. if qualifies T (entering T) k then ratio T (entering T) k else PInf)
                          [0..<length (rows T) - 1]) of
        Inl e \<Rightarrow> Inl e
      | Inr q \<Rightarrow>
          if feq (map (\<lambda>k. if qualifies T (entering T) k then ratio T (entering T) k else PInf)
                      [0..<length (rows T) - 1] ! q) PInf
          then Inr (None, None, False, False)
          else Inr (Some (entering T), Some q, False, True))"
proof -
  let ?p = "entering T"
  let ?m = "length (rows T) - 1"
  let ?F = "\<lambda>k. if fgt (map (\<lambda>r. r ! ?p) (butlast (rows T)) ! k) (Fin 0)
                  then fdiv (map last (butlast (rows T)) ! k) (map (\<lambda>r. r ! ?p) (butlast (rows T)) ! k)
                  else PInf"
  have ne: "rows T \<noteq> []" using assms(2) by auto
  have eq: "map ?F [0..<?m] = map (\<lambda>k. if qualifies T ?p k then ratio T ?p k else PInf) [0..<?m]"
    by (rule map_cong) (simp_all add: qualifies_def ratio_def entry_def nth_butlast)
  have "simplexTableau T =
     (case np_argmin (map ?F [0..<?m]) of
        Inl e \<Rightarrow> Inl e
      | Inr q \<Rightarrow>
          if feq (map ?F [0..<?m] ! q) PInf
          then Inr (None, None, False, False)
          else Inr (Some (entering T), Some q, False, True))"
    using assms ne
    by (simp add: simplexTableau_def shape_def Let_def entering_def [symmetric]
             cong: sum.case_cong)
  thus ?thesis by (simp only: eq)
qed

definition ratio_tableau :: ndarray where
  "ratio_tableau = array2 [[Fin 2, Fin 4], [Fin (- 1), Fin 3], [Fin 1, Fin 1], [Fin (- 1), Fin 0]]"

lemma simplexTableau_rows:
  assumes "rows T = rs @ [obj]"
  shows "simplexTableau T =
     (if \<not> np_any (map (\<lambda>x. flt x (Fin 0)) (butlast obj)) then Inr (None, None, True, True)
      else case np_argmin (map (\<lambda>r. if fgt (r ! np_argmax (map (\<lambda>x. flt x (Fin 0)) (butlast obj))) (Fin 0)
                                      then fdiv (last r) (r ! np_argmax (map (\<lambda>x. flt x (Fin 0)) (butlast obj)))
                                      else PInf) rs) of
             Inl e \<Rightarrow> Inl e
           | Inr q \<Rightarrow>
               if feq (map (\<lambda>r. if fgt (r ! np_argmax (map (\<lambda>x. flt x (Fin 0)) (butlast obj))) (Fin 0)
                                      then fdiv (last r) (r ! np_argmax (map (\<lambda>x. flt x (Fin 0)) (butlast obj)))
                                      else PInf) rs ! q) PInf
               then Inr (None, None, False, False)
               else Inr (Some (np_argmax (map (\<lambda>x. flt x (Fin 0)) (butlast obj))), Some q, False, True))"
proof -
  let ?p = "np_argmax (map (\<lambda>x. flt x (Fin 0)) (butlast obj))"
  let ?F = "\<lambda>k. if fgt (map (\<lambda>r. r ! ?p) rs ! k) (Fin 0)
                  then fdiv (map last rs ! k) (map (\<lambda>r. r ! ?p) rs ! k)
                  else PInf"
  have eq: "map ?F [0..<length rs] = map (\<lambda>r. if fgt (r ! ?p) (Fin 0) then fdiv (last r) (r ! ?p) else PInf) rs"
    by (rule nth_equalityI) simp_all
  have "simplexTableau T =
     (if \<not> np_any (map (\<lambda>x. flt x (Fin 0)) (butlast obj)) then Inr (None, None, True, True)
      else case np_argmin (map ?F [0..<length rs]) of
             Inl e \<Rightarrow> Inl e
           | Inr q \<Rightarrow>
               if feq (map ?F [0..<length rs] ! q) PInf
               then Inr (None, None, False, False)
               else Inr (Some ?p, Some q, False, True))"
    using assms
    by (simp add: simplexTableau_def shape_def Let_def cong: sum.case_cong)
  thus ?thesis by (simp only: eq)
qed

lemma simplexTableau_pivot:
  assumes "rows T = rs @ [obj]"
    and "map (\<lambda>x. flt x (Fin 0)) (butlast obj) = neg"
    and "np_any neg" "np_argmax neg = p"
    and "map (\<lambda>r. if fgt (r ! p) (Fin 0) then fdiv (last r) (r ! p) else PInf) rs = steps"
    and "np_argmin steps = Inr q" "steps ! q = s"
  shows "simplexTableau T = (if feq s PInf then Inr (None, None, False, False)
                             else Inr (Some p, Some q, False, True))"
proof -
  note r = simplexTableau_rows[OF assms(1), unfolded assms(2), unfolded assms(4), unfolded assms(5)]
  show ?thesis using assms(3,6,7) by (simp add: r)
qed

lemma simplexTableau_optimal:
  assumes "rows T = rs @ [obj]"
    and "map (\<lambda>x. flt x (Fin 0)) (butlast obj) = neg" "\<not> np_any neg"
  shows "simplexTableau T = Inr (None, None, True, True)"
proof -
  note r = simplexTableau_rows[OF assms(1), unfolded assms(2)]
  show ?thesis using assms(3) by (simp add: r)
qed

lemma ratio_tableau_select:
  "simplexTableau ratio_tableau = Inr (Some 0, Some 2, False, True)"
proof -
  have "simplexTableau ratio_tableau = (if feq (Fin 1) PInf then Inr (None, None, False, False)
                             else Inr (Some 0, Some 2, False, True))"
  proof (rule simplexTableau_pivot)
    show "rows ratio_tableau = [[Fin 2, Fin 4], [Fin (- 1), Fin 3], [Fin 1, Fin 1]] @ [[Fin (- 1), Fin 0]]"
      by (simp add: ratio_tableau_def array2_def)
    show "map (\<lambda>x. flt x (Fin 0)) (butlast [Fin (- 1), Fin 0]) = [True]" by simp
    show "np_any [True]" by (simp add: np_any_def)
    show "np_argmax [True] = 0" by (simp add: np_argmax_def np_any_def)
    show "map (\<lambda>r. if fgt (r ! 0) (Fin 0) then fdiv (last r) (r ! 0) else PInf)
            [[Fin 2, Fin 4], [Fin (- 1), Fin 3], [Fin 1, Fin 1]] = [Fin 2, PInf, Fin 1]"
      by (simp add: fl_defs)
    show "np_argmin [Fin 2, PInf, Fin 1] = Inr 2" by (simp add: np_argmin_def fge_def)
    show "[Fin 2, PInf, Fin 1] ! 2 = Fin 1" by simp
  qed
  thus ?thesis by (simp add: feq_def)
qed

lemma ratio_tableau_entering: "entering ratio_tableau = 0"
  by (simp add: entering_def ratio_tableau_def array2_def np_argmax_def np_any_def)

definition overflow_tableau :: ndarray where
  "overflow_tableau = array2 [[Fin (1 / 2), Fin (2 ^ 1023)], [Fin (- 1), Fin 0]]"

lemma overflow_ratio: "fdiv (Fin (2 ^ 1023)) (Fin (1 / 2)) = PInf"
  apply simp
  apply (subst round64_binade[where e = 1024])
  apply (simp_all add: rnd_even_def Let_def)
  done

lemma overflow_select:
  "simplexTableau overflow_tableau = Inr (None, None, False, False)"
proof -
  have "simplexTableau overflow_tableau = (if feq PInf PInf then Inr (None, None, False, False)
                             else Inr (Some 0, Some 0, False, True))"
  proof (rule simplexTableau_pivot)
    show "rows overflow_tableau = [[Fin (1 / 2), Fin (2 ^ 1023)]] @ [[Fin (- 1), Fin 0]]"
      by (simp add: overflow_tableau_def array2_def)
    show "map (\<lambda>x. flt x (Fin 0)) (butlast [Fin (- 1), Fin 0]) = [True]" by simp
    show "np_any [True]" by (simp add: np_any_def)
    show "np_argmax [True] = 0" by (simp add: np_argmax_def np_any_def)
    show "map (\<lambda>r. if fgt (r ! 0) (Fin 0) then fdiv (last r) (r ! 0) else PInf)
            [[Fin (1 / 2), Fin (2 ^ 1023)]] = [PInf]"
      using overflow_ratio by (simp add: fgt_def)
    show "np_argmin [PInf] = Inr 0" by (simp add: np_argmin_def)
    show "[PInf] ! 0 = PInf" by simp
  qed
  thus ?thesis by (simp add: feq_def)
qed

text \<open>With no constraint row at all, \<open>np.argmin\<close> is called on an empty array.\<close>

lemma simplexTableau_no_row:
  "simplexTableau (array2 [[Fin (- 1), Fin 0]]) = Inl ValueError"
  by (simp add: simplexTableau_def array2_def shape_def Let_def np_any_def np_argmin_def)

text \<open>
  Claim C6. For every tableau in which an entering column \<open>p\<close> has been selected, the
  selector declares UNBOUNDED exactly when no constraint row \<open>k\<close> has \<open>T[k][p] > 0\<close>;
  otherwise it returns as leaving row the first row attaining the minimum of
  \<open>rhs[k] / T[k][p]\<close> over the rows with \<open>T[k][p] > 0\<close>.

  The code gives the step \<open>inf\<close> to the rows it excludes and declares UNBOUNDED when the
  least step equals \<open>inf\<close>; a ratio that is itself \<open>inf\<close> counts as excluded. In
  \<open>overflow_tableau\<close> row 0 has \<open>T[0][0] = 0.5 > 0\<close> and \<open>rhs[0] = 2 ^ 1023\<close>; the ratio
  overflows and UNBOUNDED is declared. The theorem is the claim as amended: for a
  tableau with at least one constraint row in which the ratio of every row with
  \<open>T[k][p] > 0\<close> is finite.
\<close>

theorem ratio_test:
  assumes sel: "np_any (map (\<lambda>x. flt x (Fin 0)) (butlast (last (rows T))))"
    and rws: "0 < length (rows T) - 1"
    and fin: "\<forall>k<length (rows T) - 1. qualifies T (entering T) k
                \<longrightarrow> finite64 (ratio T (entering T) k)"
  shows "(simplexTableau T = Inr (None, None, False, False)
            \<longleftrightarrow> (\<forall>k<length (rows T) - 1. \<not> qualifies T (entering T) k))
       \<and> ((\<exists>k<length (rows T) - 1. qualifies T (entering T) k)
            \<longrightarrow> (\<exists>q. simplexTableau T = Inr (Some (entering T), Some q, False, True)
                     \<and> min_ratio_row T (entering T) q))"
proof -
  define p where "p = entering T"
  define m where "m = length (rows T) - 1"
  define steps where "steps = map (\<lambda>k. if qualifies T p k then ratio T p k else PInf) [0..<m]"
  have len: "length steps = m" by (simp add: steps_def)
  have nth: "steps ! k = (if qualifies T p k then ratio T p k else PInf)" if "k < m" for k
    using that by (simp add: steps_def)
  have "steps \<noteq> []" using rws len by (auto simp: m_def)
  moreover have "\<forall>x\<in>set steps. x \<noteq> NaN"
    using fin by (auto simp: steps_def p_def m_def finite64_def)
  ultimately obtain q where q: "np_argmin steps = Inr q" and fm: "first_min steps q"
    using np_argmin_first_min by blast
  have qm: "q < m" using fm len by (simp add: first_min_def)
  have res: "simplexTableau T =
      (if feq (steps ! q) PInf then Inr (None, None, False, False)
       else Inr (Some p, Some q, False, True))"
    using simplexTableau_steps[OF sel rws, folded p_def, folded m_def, folded steps_def] q
    by simp
  show ?thesis
  proof (cases "\<exists>k<m. qualifies T p k")
    case False
    hence "steps ! q = PInf" using qm by (simp add: nth)
    hence "simplexTableau T = Inr (None, None, False, False)" using res by (simp add: feq_def)
    thus ?thesis using False by (simp add: p_def m_def)
  next
    case True
    then obtain k0 where k0: "k0 < m" "qualifies T p k0" by blast
    then obtain r0 where r0: "ratio T p k0 = Fin r0"
      using fin by (cases "ratio T p k0") (auto simp: p_def m_def finite64_def)
    have "fle (steps ! q) (steps ! k0)" using fm k0(1) len by (simp add: first_min_def)
    hence le0: "fle (steps ! q) (Fin r0)" using k0 r0 by (simp add: nth)
    hence notinf: "steps ! q \<noteq> PInf" by auto
    hence qq: "qualifies T p q" using qm by (auto simp: nth split: if_splits)
    hence sq: "steps ! q = ratio T p q" using qm by (simp add: nth)
    have "\<not> feq (steps ! q) PInf" using notinf by (simp add: feq_def)
    hence r: "simplexTableau T = Inr (Some p, Some q, False, True)" using res by simp
    have "min_ratio_row T p q"
      unfolding min_ratio_row_def m_def [symmetric]
    proof (intro conjI allI impI)
      show "q < m" by (rule qm)
      show "qualifies T p q" by (rule qq)
    next
      fix k assume "k < m" "qualifies T p k"
      moreover from this have "fle (steps ! q) (steps ! k)" using fm len by (simp add: first_min_def)
      ultimately show "fle (ratio T p q) (ratio T p k)" by (simp add: nth sq)
    next
      fix k assume k: "k < q" "qualifies T p k"
      hence "flt (steps ! q) (steps ! k)" using fm by (simp add: first_min_def)
      moreover have "k < m" using k(1) qm by simp
      ultimately show "flt (ratio T p q) (ratio T p k)" using k(2) by (simp add: nth sq)
    qed
    with r True show ?thesis by (auto simp: p_def m_def)
  qed
qed

theorem ratio_test_witness:
  "simplexTableau ratio_tableau = Inr (Some 0, Some 2, False, True)
   \<and> min_ratio_row ratio_tableau 0 2"
proof -
  have 1: "np_any (map (\<lambda>x. flt x (Fin 0)) (butlast (last (rows ratio_tableau))))"
    by (simp add: ratio_tableau_def array2_def np_any_def)
  have 2: "0 < length (rows ratio_tableau) - 1"
    by (simp add: ratio_tableau_def array2_def)
  have 3: "\<forall>k<length (rows ratio_tableau) - 1. qualifies ratio_tableau (entering ratio_tableau) k
             \<longrightarrow> finite64 (ratio ratio_tableau (entering ratio_tableau) k)"
    unfolding ratio_tableau_entering
    by (auto simp: ratio_tableau_def array2_def qualifies_def ratio_def entry_def finite64_def
          less_Suc_eq numeral_3_eq_3 fl_defs)
  have 4: "\<exists>k<length (rows ratio_tableau) - 1. qualifies ratio_tableau (entering ratio_tableau) k"
    unfolding ratio_tableau_entering
    by (rule exI[of _ 0]) (simp add: ratio_tableau_def array2_def qualifies_def entry_def fgt_def)
  from ratio_test[OF 1 2 3] 4 ratio_tableau_select show ?thesis
    by (auto simp: ratio_tableau_entering)
qed

theorem ratio_test_overflow_counterexample:
  "is_double (Fin (1 / 2)) \<and> is_double (Fin (2 ^ 1023))
   \<and> entering overflow_tableau = 0 \<and> qualifies overflow_tableau 0 0
   \<and> simplexTableau overflow_tableau = Inr (None, None, False, False)"
proof -
  have "is_double (Fin (1 / 2))"
    using round64_exact [of "1 / 2" 1 "- 1"] by (simp add: is_double_def)
  moreover have "is_double (Fin (2 ^ 1023))"
    using round64_exact [of "2 ^ 1023" "2 ^ 52" 971] by (simp add: is_double_def)
  moreover have "entering overflow_tableau = 0"
    by (simp add: entering_def overflow_tableau_def array2_def np_argmax_def np_any_def)
  moreover have "qualifies overflow_tableau 0 0"
    by (simp add: qualifies_def overflow_tableau_def array2_def entry_def fgt_def)
  ultimately show ?thesis using overflow_select by simp
qed

subsection \<open>The driver: what it reports and what it leaves behind\<close>

lemma flt_neg_swap: "flt x (fneg y) = fgt (fneg x) y"
  by (cases x; cases y) (auto simp: fgt_def)

lemma two_phases_feasible_flag:
  assumes "simplexAlgorithmTableau T = Some (Inr (T1, opt, False))"
    and "\<not> flt (last (last (rows T1))) (fneg sqrt_eps)"
    and "two_phases key m n c T = Some (Inr (T2, u, i))"
  shows "\<not> i"
  using assms
  by (auto simp: two_phases_def split: sum.splits option.splits prod.splits if_splits)

lemma infeasible_negate:
  "negate_rows infeasible_A infeasible_b = infeasible_A"
  "negate_entries infeasible_b = infeasible_b"
  by (simp_all add: infeasible_A_def infeasible_b_def array2_def negate_rows_def
                    negate_entries_def)

definition negative_A :: ndarray where
  "negative_A = array2 [[Fin 1]]"

definition negative_b :: "float64 list" where
  "negative_b = [Fin (- 1)]"

definition negative_c :: "float64 list" where
  "negative_c = [Fin 0]"

definition negative_tableau :: ndarray where
  "negative_tableau = \<lparr>ncols = 3, rows = [[Fin (- 1), Fin 1, Fin 1], [Fin 1, Fin 0, Fin (- 1)]]\<rparr>"

lemma negative_negate:
  "negate_rows negative_A negative_b = array2 [[Fin (- 1)]]"
  "negate_entries negative_b = [Fin 1]"
  by (simp_all add: negative_A_def negative_b_def array2_def negate_rows_def negate_entries_def)

lemma negative_first_tableau:
  "first_tableau (array2 [[Fin (- 1)]]) [Fin 1] = negative_tableau"
  by (simp add: first_tableau_def negative_tableau_def np_defs fl_defs)

lemma negative_phase_one:
  "simplexAlgorithmTableau negative_tableau = Some (Inr (negative_tableau, True, False))"
proof -
  have "simplexTableau negative_tableau = Inr (None, None, True, True)"
    by (simp add: simplexTableau_def negative_tableau_def np_defs fl_defs)
  thus ?thesis by (subst simplexAlgorithmTableau.simps) simp
qed

lemma negative_simplex:
  "simplex key negative_A negative_b negative_c =
     Some \<lparr>array_A = array2 [[Fin (- 1)]], array_b = [Fin 1], array_c = negative_c,
           result = Inr (negative_tableau, False, True)\<rparr>"
proof -
  have 1: "length negative_b = length (rows negative_A)"
          "length negative_c = ncols negative_A"
    by (simp_all add: negative_A_def negative_b_def negative_c_def array2_def)
  have 3: "two_phases key m n negative_c negative_tableau
             = Some (Inr (negative_tableau, False, True))" for m n
    by (rule two_phases_infeasible[OF negative_phase_one])
       (simp add: negative_tableau_def fl_defs)
  show ?thesis
    by (simp add: simplex_sizes_ok[OF 1] negative_negate 3 negative_first_tableau)
qed

definition nan_tableau :: ndarray where
  "nan_tableau = \<lparr>ncols = 3, rows = [[NaN, Fin 1, Fin 1], [NaN, Fin 0, Fin (- 1)]]\<rparr>"

lemma nan_first_tableau:
  "first_tableau (array2 [[NaN]]) [Fin 1] = nan_tableau"
  by (simp add: first_tableau_def nan_tableau_def np_defs fl_defs)

lemma nan_phase_one:
  "simplexAlgorithmTableau nan_tableau = Some (Inr (nan_tableau, True, False))"
proof -
  have "simplexTableau nan_tableau = Inr (None, None, True, True)"
    by (simp add: simplexTableau_def nan_tableau_def np_defs fl_defs)
  thus ?thesis by (subst simplexAlgorithmTableau.simps) simp
qed

lemma nan_simplex:
  "simplex key (array2 [[NaN]]) [Fin 1] [Fin 1] =
     Some \<lparr>array_A = array2 [[NaN]], array_b = [Fin 1], array_c = [Fin 1],
           result = Inr (nan_tableau, False, True)\<rparr>"
proof -
  have 1: "length [Fin 1] = length (rows (array2 [[NaN]]))"
          "length [Fin 1] = ncols (array2 [[NaN]])"
    by (simp_all add: array2_def)
  have 2: "negate_rows (array2 [[NaN]]) [Fin 1] = array2 [[NaN]]"
          "negate_entries [Fin 1] = [Fin 1]"
    by (simp_all add: array2_def negate_rows_def negate_entries_def)
  have 3: "two_phases key m n [Fin 1] nan_tableau
             = Some (Inr (nan_tableau, False, True))" for m n
    by (rule two_phases_infeasible[OF nan_phase_one])
       (simp add: nan_tableau_def fl_defs)
  show ?thesis
    by (simp add: simplex_sizes_ok[OF 1] 2 3 nan_first_tableau)
qed

lemma simplexTableau_errors: "simplexTableau T = Inl e \<Longrightarrow> e = IndexError \<or> e = ValueError"
  by (auto simp: simplexTableau_def shape_def Let_def np_argmin_def
           split: if_splits sum.splits list.splits)

lemma pivoting_errors: "pivoting T p q = Inl e \<Longrightarrow> e \<noteq> IncompatibleSizes"
  by (auto simp: pivoting_def shape_def Let_def split: if_splits)

lemma algorithm_errors:
  assumes "simplexAlgorithmTableau T = Some r"
  shows "r \<noteq> Inl IncompatibleSizes"
proof (rule simplexAlgorithmTableau.raw_induct[where P = "\<lambda>T r. r \<noteq> Inl IncompatibleSizes", OF _ assms])
  fix f :: "ndarray \<Rightarrow> (error + ndarray \<times> bool \<times> bool) option" and tableau y
  assume ih: "\<And>x y. f x = Some y \<Longrightarrow> y \<noteq> Inl IncompatibleSizes"
    and body: "(case simplexTableau tableau of
        Inl e \<Rightarrow> Some (Inl e)
      | Inr (colPivot, rowPivot, optimal, bounded) \<Rightarrow>
          if optimal then Some (Inr (tableau, True, False))
          else if \<not> bounded then Some (Inr (tableau, False, True))
          else (case (colPivot, rowPivot) of
                  (Some p, Some q) \<Rightarrow>
                    (case pivoting tableau (int p) (int q) of
                       Inl e \<Rightarrow> Some (Inl e)
                     | Inr newtableau \<Rightarrow> f newtableau)
                | _ \<Rightarrow> Some (Inl TypeError))) = Some y"
  show "y \<noteq> Inl IncompatibleSizes"
  proof (cases "simplexTableau tableau")
    case (Inl e)
    with body simplexTableau_errors[OF Inl] show ?thesis by auto
  next
    case (Inr v)
    obtain cp rp opt bd where v: "v = (cp, rp, opt, bd)" by (cases v)
    show ?thesis
      using body ih Inr v
      by (auto split: if_splits option.splits sum.splits dest: pivoting_errors)
  qed
qed

lemma getRow_errors: "getRow T k = Inl e \<Longrightarrow> e = VariableRange"
  by (auto simp: getRow_def shape_def Let_def split: if_splits)

lemma getRows_errors: "getRows T ks = Inl e \<Longrightarrow> e = VariableRange"
  by (induction ks arbitrary: e) (auto split: sum.splits dest: getRow_errors)

lemma clean_pass_errors: "clean_pass key n m st = Done (Inl e) \<Longrightarrow> e \<noteq> IncompatibleSizes"
  by (auto simp: clean_pass_def Let_def np_delete_rows_def
           split: prod.splits if_splits option.splits sum.splits
           dest: pivoting_errors getRows_errors)

lemma clean_loop_errors: "clean_loop key n m st = Inl e \<Longrightarrow> e \<noteq> IncompatibleSizes"
proof (induction key n m st rule: clean_loop.induct)
  case (1 key n m st)
  show ?case
  proof (cases "clean_pass key n m st")
    case (Done r)
    with 1(2) have "r = Inl e" by (simp add: clean_loop.simps [of key n m st])
    with Done clean_pass_errors show ?thesis by blast
  next
    case (Again st')
    with 1 show ?thesis by (simp add: clean_loop.simps [of key n m st])
  qed
qed

lemma two_phases_errors:
  "two_phases key m n c T = Some r \<Longrightarrow> r \<noteq> Inl IncompatibleSizes"
  by (auto simp: two_phases_def np_delete_cols_def
           split: option.splits sum.splits prod.splits if_splits
           dest: algorithm_errors getRows_errors clean_loop_errors)

text \<open>
  Claim C2. For every input on which Phase I ends with a bounded optimum, \<open>simplex\<close>
  reports INFEASIBLE, returning the Phase I terminal tableau, exactly when the optimal
  auxiliary objective value, the negative of the objective-row right-hand side of that
  tableau, is below zero by more than a small tolerance.

  The code tests \<open>phaseOneTableau[-1, -1] < -sqrt(eps)\<close>. The entry tested is the negative
  of the auxiliary objective value, so the test holds when the value is above zero by
  more than the tolerance: for \<open>0 * x = 1\<close> the value is 1 and INFEASIBLE is reported.
  The theorem is the claim as amended, with the sign of the test as the code has it.
\<close>

theorem infeasible_iff:
  assumes "length b = length (rows A)" "length c = ncols A"
    and "simplexAlgorithmTableau (first_tableau (negate_rows A b) (negate_entries b))
           = Some (Inr (T1, True, False))"
  shows "((\<exists>r T u. simplex key A b c = Some r \<and> result r = Inr (T, u, True))
            \<longleftrightarrow> fgt (copt T1) sqrt_eps)
       \<and> (fgt (copt T1) sqrt_eps
            \<longrightarrow> simplex key A b c =
                  Some \<lparr>array_A = negate_rows A b, array_b = negate_entries b, array_c = c,
                        result = Inr (T1, False, True)\<rparr>)"
proof (cases "fgt (copt T1) sqrt_eps")
  case True
  hence "flt (last (last (rows T1))) (fneg sqrt_eps)" by (simp add: flt_neg_swap copt_def)
  from two_phases_infeasible[OF assms(3) this]
  have "simplex key A b c =
          Some \<lparr>array_A = negate_rows A b, array_b = negate_entries b, array_c = c,
                result = Inr (T1, False, True)\<rparr>"
    by (simp add: simplex_sizes_ok[OF assms(1,2)])
  with True show ?thesis by auto
next
  case False
  hence nf: "\<not> flt (last (last (rows T1))) (fneg sqrt_eps)" by (simp add: flt_neg_swap copt_def)
  have "\<not> (\<exists>r T u. simplex key A b c = Some r \<and> result r = Inr (T, u, True))"
    by (auto simp: simplex_sizes_ok[OF assms(1,2)]
             dest: two_phases_feasible_flag[OF assms(3) nf])
  with False show ?thesis by simp
qed

theorem infeasible_iff_witness:
  "fgt (copt infeasible_tableau) sqrt_eps
   \<and> simplex id infeasible_A infeasible_b infeasible_c =
       Some \<lparr>array_A = infeasible_A, array_b = infeasible_b, array_c = infeasible_c,
             result = Inr (infeasible_tableau, False, True)\<rparr>"
proof -
  have 1: "length infeasible_b = length (rows infeasible_A)"
          "length infeasible_c = ncols infeasible_A"
    by (simp_all add: infeasible_A_def infeasible_b_def infeasible_c_def array2_def)
  have 2: "simplexAlgorithmTableau
             (first_tableau (negate_rows infeasible_A infeasible_b) (negate_entries infeasible_b))
           = Some (Inr (infeasible_tableau, True, False))"
    by (simp add: infeasible_negate infeasible_first_tableau infeasible_phase_one)
  have 3: "fgt (copt infeasible_tableau) sqrt_eps"
    by (simp add: copt_def infeasible_tableau_def fgt_def sqrt_eps_def)
  from infeasible_iff[OF 1 2, of id] 3 show ?thesis by (simp add: infeasible_negate)
qed

theorem infeasible_sign_counterexample:
  "simplexAlgorithmTableau
     (first_tableau (negate_rows infeasible_A infeasible_b) (negate_entries infeasible_b))
     = Some (Inr (infeasible_tableau, True, False))
   \<and> simplex id infeasible_A infeasible_b infeasible_c =
       Some \<lparr>array_A = infeasible_A, array_b = infeasible_b, array_c = infeasible_c,
             result = Inr (infeasible_tableau, False, True)\<rparr>
   \<and> copt infeasible_tableau = Fin 1
   \<and> \<not> flt (copt infeasible_tableau) (fneg sqrt_eps)"
proof (intro conjI)
  show "simplexAlgorithmTableau
     (first_tableau (negate_rows infeasible_A infeasible_b) (negate_entries infeasible_b))
     = Some (Inr (infeasible_tableau, True, False))"
    by (simp add: infeasible_negate infeasible_first_tableau infeasible_phase_one)
  show "simplex id infeasible_A infeasible_b infeasible_c =
       Some \<lparr>array_A = infeasible_A, array_b = infeasible_b, array_c = infeasible_c,
             result = Inr (infeasible_tableau, False, True)\<rparr>"
    by (rule infeasible_simplex)
  show "copt infeasible_tableau = Fin 1"
    by (simp add: copt_def infeasible_tableau_def)
  show "\<not> flt (copt infeasible_tableau) (fneg sqrt_eps)"
    by (simp add: copt_def infeasible_tableau_def sqrt_eps_def)
qed

text \<open>
  The normalization loop in memory. A pass negates the cells of row \<open>i\<close> of \<open>A\<close> and then
  the cell of \<open>b[i]\<close>; a cell that is both is negated twice.
\<close>

lemma store_vector_map:
  "store_vector mem as (map g as) = (\<lambda>a. if a \<in> set as then g a else mem a)"
  by (induction as arbitrary: mem) (auto simp: fun_eq_iff)

lemma normalize_Cons:
  "normalize_signs A b (i # negativeb) mem =
     normalize_signs A b negativeb
       (\<lambda>a. if a = b ! i
             then fneg (if b ! i \<in> set (view_rows A ! i) then fneg (mem (b ! i)) else mem (b ! i))
             else if a \<in> set (view_rows A ! i) then fneg (mem a) else mem a)"
proof -
  have "map fneg (load_vector mem (view_rows A ! i)) = map (\<lambda>a. fneg (mem a)) (view_rows A ! i)"
    by (simp add: load_vector_def)
  hence "store_vector mem (view_rows A ! i) (map fneg (load_vector mem (view_rows A ! i)))
       = (\<lambda>a. if a \<in> set (view_rows A ! i) then fneg (mem a) else mem a)"
    by (simp only: store_vector_map)
  thus ?thesis by (simp add: Let_def fun_upd_def)
qed

lemma normalize_frame:
  assumes "\<forall>i\<in>set negativeb. i < length (view_rows A) \<and> i < length b"
    and "a \<notin> cells A" "a \<notin> set b"
  shows "normalize_signs A b negativeb mem a = mem a"
  using assms(1)
proof (induction negativeb arbitrary: mem)
  case Nil thus ?case by simp
next
  case (Cons i negativeb)
  hence i: "i < length (view_rows A)" "i < length b" by simp_all
  have "a \<notin> set (view_rows A ! i)" using assms(2) i(1) by (auto simp: cells_def)
  moreover have "a \<noteq> b ! i" using assms(3) i(2) by auto
  ultimately show ?case using Cons by (simp add: normalize_Cons del: normalize_signs.simps)
qed

lemma distinct_concat_nth:
  "distinct (concat xss) \<Longrightarrow> i < length xss \<Longrightarrow> j < length xss \<Longrightarrow> i \<noteq> j
   \<Longrightarrow> x \<in> set (xss ! i) \<Longrightarrow> x \<notin> set (xss ! j)"
proof (induction xss arbitrary: i j)
  case Nil thus ?case by simp
next
  case (Cons xs xss)
  show ?case
  proof (cases i)
    case 0
    with Cons.prems obtain j' where "j = Suc j'" "j' < length xss" by (cases j) auto
    with Cons.prems 0 show ?thesis by (auto dest: nth_mem)
  next
    case (Suc i')
    show ?thesis
    proof (cases j)
      case 0
      with Cons.prems Suc show ?thesis by (auto dest: nth_mem)
    next
      case (Suc j')
      with Cons.prems \<open>i = Suc i'\<close> Cons.IH[of i' j'] show ?thesis by auto
    qed
  qed
qed

lemma normalize_separate:
  assumes sep: "separate A b"
    and "distinct negativeb" "\<forall>i\<in>set negativeb. i < length (view_rows A) \<and> i < length b"
  shows "normalize_signs A b negativeb mem a =
     (if \<exists>i\<in>set negativeb. a \<in> set (view_rows A ! i) \<or> a = b ! i then fneg (mem a) else mem a)"
  using assms(2,3)
proof (induction negativeb arbitrary: mem)
  case Nil thus ?case by simp
next
  case (Cons i negativeb)
  hence i: "i < length (view_rows A)" "i < length b" "i \<notin> set negativeb" by simp_all
  have dA: "distinct (concat (view_rows A))" and db: "distinct b"
    and dAb: "set (concat (view_rows A)) \<inter> set b = {}"
    using sep by (simp_all add: separate_def)
  have rowb: "x \<notin> set b" if "x \<in> set (view_rows A ! k)" "k < length (view_rows A)" for x k
    using dAb that by (auto dest: nth_mem)
  have bi: "b ! i \<notin> set (view_rows A ! i)" using rowb[OF _ i(1)] nth_mem[OF i(2)] by blast
  define mem2 where "mem2 = (\<lambda>x. if x \<in> set (view_rows A ! i) \<or> x = b ! i then fneg (mem x) else mem x)"
  have "(\<lambda>a. if a = b ! i
             then fneg (if b ! i \<in> set (view_rows A ! i) then fneg (mem (b ! i)) else mem (b ! i))
             else if a \<in> set (view_rows A ! i) then fneg (mem a) else mem a) = mem2"
    using bi by (auto simp: mem2_def fun_eq_iff)
  hence step: "normalize_signs A b (i # negativeb) mem = normalize_signs A b negativeb mem2"
    by (simp only: normalize_Cons)
  have ih: "normalize_signs A b negativeb mem2 a =
     (if \<exists>j\<in>set negativeb. a \<in> set (view_rows A ! j) \<or> a = b ! j then fneg (mem2 a) else mem2 a)"
    using Cons by simp
  show ?case
  proof (cases "\<exists>j\<in>set negativeb. a \<in> set (view_rows A ! j) \<or> a = b ! j")
    case True
    then obtain j where j: "j \<in> set negativeb" "a \<in> set (view_rows A ! j) \<or> a = b ! j" by blast
    with Cons.prems i have jl: "j < length (view_rows A)" "j < length b" "j \<noteq> i" by auto
    have "a \<notin> set (view_rows A ! i)"
    proof (cases "a \<in> set (view_rows A ! j)")
      case True
      thus ?thesis using distinct_concat_nth[OF dA jl(1) i(1) jl(3)] by simp
    next
      case False
      with j(2) have "a \<in> set b" using nth_mem[OF jl(2)] by auto
      thus ?thesis using rowb[OF _ i(1)] by blast
    qed
    moreover have "a \<noteq> b ! i"
    proof (cases "a \<in> set (view_rows A ! j)")
      case True
      thus ?thesis using rowb[OF True jl(1)] nth_mem[OF i(2)] by auto
    next
      case False
      with j(2) have "a = b ! j" by simp
      thus ?thesis using db jl(2,3) i(2) by (simp add: nth_eq_iff_index_eq)
    qed
    ultimately have "mem2 a = mem a" by (simp add: mem2_def)
    thus ?thesis using True step ih by auto
  next
    case False
    thus ?thesis using step ih by (auto simp: mem2_def)
  qed
qed

lemma normalize_cell:
  assumes sep: "separate A b" and len: "length b = length (view_rows A)"
  shows "normalized mem A b a =
     (if \<exists>i<length b. flt (mem (b ! i)) (Fin 0) \<and> (a \<in> set (view_rows A ! i) \<or> a = b ! i)
      then fneg (mem a) else mem a)"
proof -
  define nb where "nb = filter (\<lambda>i. flt (mem (b ! i)) (Fin 0)) [0..<length b]"
  have 1: "distinct nb" by (simp add: nb_def)
  have 2: "\<forall>i\<in>set nb. i < length (view_rows A) \<and> i < length b" using len by (simp add: nb_def)
  have 3: "(\<exists>i\<in>set nb. a \<in> set (view_rows A ! i) \<or> a = b ! i) \<longleftrightarrow>
           (\<exists>i<length b. flt (mem (b ! i)) (Fin 0) \<and> (a \<in> set (view_rows A ! i) \<or> a = b ! i))"
    by (auto simp: nb_def)
  show ?thesis
    unfolding nb_def [symmetric] normalize_separate[OF sep 1 2] 3 ..
qed

lemma normalize_row:
  assumes sep: "separate A b" and len: "length b = length (view_rows A)"
    and i: "i < length (view_rows A)"
  shows "load_vector (normalized mem A b) (view_rows A ! i) =
         (if flt (mem (b ! i)) (Fin 0) then map fneg (load_vector mem (view_rows A ! i))
          else load_vector mem (view_rows A ! i))"
proof -
  have dA: "distinct (concat (view_rows A))"
    and dAb: "set (concat (view_rows A)) \<inter> set b = {}"
    using sep by (simp_all add: separate_def)
  have "(\<exists>j<length b. flt (mem (b ! j)) (Fin 0) \<and> (a \<in> set (view_rows A ! j) \<or> a = b ! j))
        \<longleftrightarrow> flt (mem (b ! i)) (Fin 0)" if a: "a \<in> set (view_rows A ! i)" for a
  proof
    assume "\<exists>j<length b. flt (mem (b ! j)) (Fin 0) \<and> (a \<in> set (view_rows A ! j) \<or> a = b ! j)"
    then obtain j where j: "j < length b" "flt (mem (b ! j)) (Fin 0)"
      "a \<in> set (view_rows A ! j) \<or> a = b ! j" by blast
    have "a \<in> set (concat (view_rows A))" using a nth_mem[OF i] by auto
    hence "a \<notin> set b" using dAb by auto
    hence "a \<noteq> b ! j" using nth_mem[OF j(1)] by auto
    with j(3) have aj: "a \<in> set (view_rows A ! j)" by simp
    have "j = i"
    proof (rule ccontr)
      assume "j \<noteq> i"
      from distinct_concat_nth[OF dA _ i this aj] j(1) len a show False by simp
    qed
    thus "flt (mem (b ! i)) (Fin 0)" using j(2) by simp
  next
    assume "flt (mem (b ! i)) (Fin 0)"
    thus "\<exists>j<length b. flt (mem (b ! j)) (Fin 0) \<and> (a \<in> set (view_rows A ! j) \<or> a = b ! j)"
      using a i len by auto
  qed
  thus ?thesis
    by (simp add: load_vector_def normalize_cell[OF sep len])
qed

lemma normalize_entries:
  assumes sep: "separate A b" and len: "length b = length (view_rows A)"
  shows "load_vector (normalized mem A b) b = negate_entries (load_vector mem b)"
proof -
  have db: "distinct b" and dAb: "set (concat (view_rows A)) \<inter> set b = {}"
    using sep by (simp_all add: separate_def)
  have "(\<exists>j<length b. flt (mem (b ! j)) (Fin 0) \<and> (a \<in> set (view_rows A ! j) \<or> a = b ! j))
        \<longleftrightarrow> flt (mem a) (Fin 0)" if a: "a \<in> set b" for a
  proof
    assume "\<exists>j<length b. flt (mem (b ! j)) (Fin 0) \<and> (a \<in> set (view_rows A ! j) \<or> a = b ! j)"
    then obtain j where j: "j < length b" "flt (mem (b ! j)) (Fin 0)"
      "a \<in> set (view_rows A ! j) \<or> a = b ! j" by blast
    have "a \<notin> set (view_rows A ! j)"
    proof
      assume "a \<in> set (view_rows A ! j)"
      hence "a \<in> set (concat (view_rows A))" using j(1) len by auto
      thus False using a dAb by auto
    qed
    with j show "flt (mem a) (Fin 0)" by auto
  next
    assume f: "flt (mem a) (Fin 0)"
    from a obtain j where "j < length b" "b ! j = a" by (auto simp: in_set_conv_nth)
    thus "\<exists>j<length b. flt (mem (b ! j)) (Fin 0) \<and> (a \<in> set (view_rows A ! j) \<or> a = b ! j)"
      using f by auto
  qed
  thus ?thesis
    by (simp add: load_vector_def negate_entries_def normalize_cell[OF sep len])
qed

lemma normalize_matrix:
  assumes sep: "separate A b" and len: "length b = length (view_rows A)"
  shows "load_matrix (normalized mem A b) A = negate_rows (load_matrix mem A) (load_vector mem b)"
proof -
  define mem' where "mem' = normalized mem A b"
  have "map (load_vector mem') (view_rows A) =
        map (\<lambda>i. if flt (load_vector mem b ! i) (Fin 0)
                  then map fneg (map (load_vector mem) (view_rows A) ! i)
                  else map (load_vector mem) (view_rows A) ! i) [0..<length (view_rows A)]"
  proof (rule nth_equalityI)
    show "length (map (load_vector mem') (view_rows A)) =
          length (map (\<lambda>i. if flt (load_vector mem b ! i) (Fin 0)
                  then map fneg (map (load_vector mem) (view_rows A) ! i)
                  else map (load_vector mem) (view_rows A) ! i) [0..<length (view_rows A)])"
      by simp
  next
    fix i assume "i < length (map (load_vector mem') (view_rows A))"
    hence i: "i < length (view_rows A)" by simp
    hence bi: "load_vector mem b ! i = mem (b ! i)" using len by (simp add: load_vector_def)
    show "map (load_vector mem') (view_rows A) ! i =
          map (\<lambda>i. if flt (load_vector mem b ! i) (Fin 0)
                  then map fneg (map (load_vector mem) (view_rows A) ! i)
                  else map (load_vector mem) (view_rows A) ! i) [0..<length (view_rows A)] ! i"
      using i normalize_row[OF sep len i, of mem] by (simp add: bi mem'_def)
  qed
  thus ?thesis by (simp add: load_matrix_def negate_rows_def mem'_def)
qed

lemma normalize_vector_frame:
  assumes "length b = length (view_rows A)" "set c \<inter> (cells A \<union> set b) = {}"
  shows "load_vector (normalized mem A b) c = load_vector mem c"
proof -
  have "\<forall>i\<in>set (filter (\<lambda>i. flt (mem (b ! i)) (Fin 0)) [0..<length b]).
          i < length (view_rows A) \<and> i < length b"
    using assms(1) by simp
  from normalize_frame[OF this] assms(2) show ?thesis
    by (auto simp: load_vector_def)
qed

lemma simplex_in_memory_sizes_ok:
  assumes "length b = length (view_rows A)" "length c = view_ncols A"
  shows "simplex_in_memory key mem A b c =
     map_option (\<lambda>r. \<lparr>memory_after = normalized mem A b, returned = r\<rparr>)
       (two_phases key (length (view_rows A)) (view_ncols A)
          (load_vector (normalized mem A b) c)
          (first_tableau (load_matrix (normalized mem A b) A)
             (load_vector (normalized mem A b) b)))"
  using assms by (simp add: simplex_in_memory_def Let_def)

text \<open>On arrays that share no memory the call in memory is the call on the contents.\<close>

lemma simplex_in_memory_separate:
  assumes sep: "separate A b" and c: "set c \<inter> (cells A \<union> set b) = {}"
  shows "rel_option
           (\<lambda>r s. returned r = result s
                 \<and> load_matrix (memory_after r) A = array_A s
                 \<and> load_vector (memory_after r) b = array_b s
                 \<and> load_vector (memory_after r) c = array_c s)
           (simplex_in_memory key mem A b c)
           (simplex key (load_matrix mem A) (load_vector mem b) (load_vector mem c))"
proof (cases "length b = length (view_rows A) \<and> length c = view_ncols A")
  case False
  thus ?thesis
    by (auto simp: simplex_in_memory_def simplex_def shape_def load_matrix_def load_vector_def
          Let_def)
next
  case True
  hence len: "length b = length (view_rows A)" "length c = view_ncols A" by simp_all
  have 1: "length (load_vector mem b) = length (rows (load_matrix mem A))"
          "length (load_vector mem c) = ncols (load_matrix mem A)"
    using len by (simp_all add: load_matrix_def load_vector_def)
  have 2: "length (rows (load_matrix mem A)) = length (view_rows A)"
          "ncols (load_matrix mem A) = view_ncols A"
    by (simp_all add: load_matrix_def)
  show ?thesis
    unfolding simplex_in_memory_sizes_ok[OF len] simplex_sizes_ok[OF 1] 2
      normalize_matrix[OF sep len(1)] normalize_entries[OF sep len(1)]
      normalize_vector_frame[OF len(1) c]
    by (simp add: option.rel_map option.rel_refl
          normalize_matrix[OF sep len(1)] normalize_entries[OF sep len(1)]
          normalize_vector_frame[OF len(1) c])
qed

text \<open>
  The call on \<open>A = [[1]]\<close>, \<open>b = [-1]\<close>, \<open>c = [0]\<close>, with the three arrays at the addresses
  0, 1 and 2.
\<close>

definition one_cell :: matrix_view where
  "one_cell = \<lparr>view_ncols = 1, view_rows = [[0]]\<rparr>"

definition negative_memory :: memory where
  "negative_memory = (\<lambda>a. Fin 0)(0 := Fin 1, 1 := Fin (- 1))"

lemma negative_two_phases:
  "two_phases key m n c negative_tableau = Some (Inr (negative_tableau, False, True))"
  by (rule two_phases_infeasible[OF negative_phase_one]) (simp add: negative_tableau_def fl_defs)

lemma negative_run:
  "simplex_in_memory key negative_memory one_cell [1] [2] =
     Some \<lparr>memory_after = negative_memory(0 := Fin (- 1), 1 := Fin 1),
           returned = Inr (negative_tableau, False, True)\<rparr>"
proof -
  have 1: "length [1::nat] = length (view_rows one_cell)" "length [2::nat] = view_ncols one_cell"
    by (simp_all add: one_cell_def)
  have 2: "filter (\<lambda>i. flt (negative_memory ([1] ! i)) (Fin 0)) [0..<length [1::nat]] = [0]"
    by (simp add: negative_memory_def)
  have 3: "normalize_signs one_cell [1] [0] negative_memory = negative_memory(0 := Fin (- 1), 1 := Fin 1)"
    by (simp add: one_cell_def negative_memory_def load_vector_def Let_def)
  have 4: "load_matrix (negative_memory(0 := Fin (- 1), 1 := Fin 1)) one_cell = array2 [[Fin (- 1)]]"
    "load_vector (negative_memory(0 := Fin (- 1), 1 := Fin 1)) [1] = [Fin 1]"
    by (simp_all add: load_matrix_def load_vector_def one_cell_def array2_def)
  show ?thesis
    unfolding simplex_in_memory_sizes_ok[OF 1] 2 3 4 negative_first_tableau negative_two_phases
    by simp
qed

text \<open>
  Arrays that share memory. In \<open>shared_run\<close> the same array \<open>v = [-1]\<close> is passed as \<open>b\<close> and
  as \<open>c\<close>, with \<open>A = [[-1]]\<close>: the normalization leaves \<open>[1]\<close> in it, the second phase
  reads this \<open>c\<close>, and the caller finds \<open>c\<close> changed. The arrays \<open>after_A\<close>, \<open>after_b\<close> and
  \<open>after_c\<close> are the contents after the loop, \<open>after_t\<close>, ... the tableaux of the run. In
  \<open>shared_column\<close> the vector \<open>b\<close> is column 0 of \<open>A = [[-1, 1]]\<close>: the row is negated and
  then its first cell once more, which leaves \<open>[[-1, -1]]\<close> and \<open>b = [-1]\<close>.
\<close>

definition after_A :: ndarray where
  "after_A = array2 [[Fin 1]]"

definition after_b :: "float64 list" where
  "after_b = [Fin 1]"

definition after_c :: "float64 list" where
  "after_c = [Fin 1]"

definition after_t :: ndarray where
  "after_t = \<lparr>ncols = 3, rows =
     [[Fin 1, Fin 1, Fin 1],
      [Fin (- 1), Fin 0, Fin (- 1)]]\<rparr>"

lemma after_first: "first_tableau after_A after_b = after_t"
  by (simp add: first_tableau_def after_A_def after_b_def after_t_def np_defs fl_defs upt_conv_Cons)

lemma after_t_select: "simplexTableau after_t = Inr (Some 0, Some 0, False, True)"
proof -
  have "simplexTableau after_t = (if feq (Fin 1) PInf then Inr (None, None, False, False)
      else Inr (Some 0, Some 0, False, True))"
  proof (rule simplexTableau_pivot)
    show "rows after_t = [[Fin 1, Fin 1, Fin 1]] @ [[Fin (- 1), Fin 0, Fin (- 1)]]"
      by (simp add: after_t_def)
    show "map (\<lambda>x. flt x (Fin 0)) (butlast [Fin (- 1), Fin 0, Fin (- 1)]) = [True, False]" by simp
    show "np_any [True, False]" by (simp add: np_any_def)
    show "np_argmax [True, False] = 0" by (simp add: np_argmax_def np_any_def)
    show "map (\<lambda>r. if fgt (r ! 0) (Fin 0) then fdiv (last r) (r ! 0) else PInf)
            [[Fin 1, Fin 1, Fin 1]] = [Fin 1]"
      by (simp add: fl_defs)
    show "np_argmin [Fin 1] = Inr 0" by (simp add: np_argmin_def fge_def)
    show "[Fin 1] ! 0 = Fin 1" by simp
  qed
  thus ?thesis by (simp add: feq_def)
qed

definition after_t2 :: ndarray where
  "after_t2 = \<lparr>ncols = 3, rows =
     [[Fin 1, Fin 1, Fin 1],
      [Fin 0, Fin 1, Fin 0]]\<rparr>"

lemma after_t2_select: "simplexTableau after_t2 = Inr (None, None, True, True)"
proof (rule simplexTableau_optimal)
  show "rows after_t2 = [[Fin 1, Fin 1, Fin 1]] @ [[Fin 0, Fin 1, Fin 0]]"
    by (simp add: after_t2_def)
  show "map (\<lambda>x. flt x (Fin 0)) (butlast [Fin 0, Fin 1, Fin 0]) = [False, False]" by simp
  show "\<not> np_any [False, False]" by (simp add: np_any_def)
qed

lemma after_t_pivot: "pivoting after_t (int 0) (int 0) = Inr after_t2"
  by (simp add: pivoting_in_range after_t_def after_t2_def entry_def fl_defs upt_conv_Cons)

lemma after_phase_one: "simplexAlgorithmTableau after_t = Some (Inr (after_t2, True, False))"
  by (rule algorithm_step [OF after_t_select after_t_pivot],
     (rule algorithm_optimal [OF after_t2_select]))

lemma after_t2_getRows2: "getRows after_t2 [0..<2] = Inr [Some 0, None]"
  by (simp add: getRow_def shape_def column_def after_t2_def fl_defs upt_conv_Cons)

lemma after_clean_pass0:
  "clean_pass key 1 1 (after_t2, [Some 0, None], ([]::nat list)) =
     Done (Inr (after_t2, [Some 0, None], ([]::nat list)))"
proof (rule clean_pass_done)
  show "filter (\<lambda>k. [Some 0, None] ! k \<noteq> None) [0..<length [Some 0, None]] = [0::nat]"
    by simp
  show "filter (\<lambda>k. 1 \<le> k \<and> k < 1 + 1) [0::nat] = ([]::nat list)"
    by simp
qed

lemma after_clean:
  "clean_loop key 1 1 (after_t2, [Some 0, None], ([]::nat list)) =
     Inr (after_t2, [Some 0, None], ([]::nat list))"
proof -
  have c0: "clean_loop key 1 1 (after_t2, [Some 0, None], ([]::nat list)) =
     Inr (after_t2, [Some 0, None], ([]::nat list))"
    by (rule clean_loop_done [OF after_clean_pass0])
  show ?thesis by (rule c0)
qed

definition after_s :: ndarray where
  "after_s = \<lparr>ncols = 2, rows =
     [[Fin 1, Fin 1],
      [Fin 0, Fin 0]]\<rparr>"

definition after_s2 :: ndarray where
  "after_s2 = \<lparr>ncols = 2, rows =
     [[Fin 1, Fin 1],
      [Fin 0, Fin (- 1)]]\<rparr>"

lemma after_s_getRows1: "getRows after_s [0..<1] = Inr [Some 0]"
  by (simp add: getRow_def shape_def column_def after_s_def fl_defs upt_conv_Cons)

lemma after_s2_select: "simplexTableau after_s2 = Inr (None, None, True, True)"
proof (rule simplexTableau_optimal)
  show "rows after_s2 = [[Fin 1, Fin 1]] @ [[Fin 0, Fin (- 1)]]"
    by (simp add: after_s2_def)
  show "map (\<lambda>x. flt x (Fin 0)) (butlast [Fin 0, Fin (- 1)]) = [False]" by simp
  show "\<not> np_any [False]" by (simp add: np_any_def)
qed

lemma after_phase_two: "simplexAlgorithmTableau after_s2 = Some (Inr (after_s2, True, False))"
  by (rule algorithm_optimal [OF after_s2_select])

lemma after_two_phases:
  "two_phases key 1 1 after_c after_t = Some (Inr (after_s2, False, False))"
proof (rule two_phases_through)
  show "simplexAlgorithmTableau after_t = Some (Inr (after_t2, True, False))" by (rule after_phase_one)
  show "\<not> flt (last (last (rows after_t2))) (fneg sqrt_eps)" by (simp add: after_t2_def fl_defs)
  show "getRows after_t2 [0..<1 + 1] = Inr [Some 0, None]"
    unfolding one_add_one by (rule after_t2_getRows2)
  show "clean_loop key 1 1 (after_t2, [Some 0, None], []) =
      Inr (after_t2, [Some 0, None], ([]::nat list))" by (rule after_clean)
  show "np_delete_cols after_t2 [1..<1 + 1] = Inr after_s"
    by (simp add: np_delete_cols_def drop_indices_def after_t2_def after_s_def upt_conv_Cons)
  show "getRows after_s [0..<1] = Inr [Some 0]" by (rule after_s_getRows1)
  show "rows after_s \<noteq> []" by (simp add: after_s_def)
  show "after_s\<lparr>rows := butlast (rows after_s) @ [phase_two_row after_c 1 after_s [Some 0]]\<rparr> = after_s2"
    by (simp add: phase_two_row_def after_c_def after_s_def after_s2_def np_defs fl_defs upt_conv_Cons)
  show "simplexAlgorithmTableau after_s2 = Some (Inr (after_s2, True, False))" by (rule after_phase_two)
qed

definition shared_memory :: memory where
  "shared_memory = (\<lambda>a. Fin 0)(0 := Fin (- 1), 1 := Fin (- 1))"

lemma shared_run:
  "simplex_in_memory key shared_memory one_cell [1] [1] =
     Some \<lparr>memory_after = shared_memory(0 := Fin 1, 1 := Fin 1),
           returned = Inr (after_s2, False, False)\<rparr>"
proof -
  have 1: "length [1::nat] = length (view_rows one_cell)" "length [1::nat] = view_ncols one_cell"
    by (simp_all add: one_cell_def)
  have 2: "filter (\<lambda>i. flt (shared_memory ([1] ! i)) (Fin 0)) [0..<length [1::nat]] = [0]"
    by (simp add: shared_memory_def)
  have 3: "normalize_signs one_cell [1] [0] shared_memory = shared_memory(0 := Fin 1, 1 := Fin 1)"
    by (simp add: one_cell_def shared_memory_def load_vector_def Let_def)
  have 4: "load_matrix (shared_memory(0 := Fin 1, 1 := Fin 1)) one_cell = after_A"
    "load_vector (shared_memory(0 := Fin 1, 1 := Fin 1)) [1] = after_b"
    by (simp_all add: load_matrix_def load_vector_def one_cell_def array2_def
          after_A_def after_b_def)
  have 5: "length (view_rows one_cell) = 1" "view_ncols one_cell = 1"
    by (simp_all add: one_cell_def)
  have 6: "after_c = after_b" by (simp add: after_b_def after_c_def)
  show ?thesis
    unfolding simplex_in_memory_sizes_ok[OF 1] 2 3 4 5 after_first
      after_two_phases[unfolded 6] option.map
    by (rule refl)
qed

lemma shared_cost_changed:
  "load_vector shared_memory [1] = [Fin (- 1)]
   \<and> load_vector (shared_memory(0 := Fin 1, 1 := Fin 1)) [1] = [Fin 1]
   \<and> copt after_s2 = Fin 1"
  by (simp add: load_vector_def shared_memory_def copt_def after_s2_def)

lemma shared_column:
  "load_matrix
     (normalize_signs \<lparr>view_ncols = 2, view_rows = [[0, 1]]\<rparr> [0] [0]
        ((\<lambda>a. Fin 0)(0 := Fin (- 1), 1 := Fin 1)))
     \<lparr>view_ncols = 2, view_rows = [[0, 1]]\<rparr> = array2 [[Fin (- 1), Fin (- 1)]]"
  by (simp add: load_matrix_def load_vector_def array2_def Let_def)

text \<open>
  Claim C3. \<open>simplex\<close> treats the problem triple as immutable: for every input, also one
  with a negative entry in \<open>b\<close>, the caller's \<open>A\<close>, \<open>b\<close> and \<open>c\<close> hold the same values
  after the call as before it.

  The normalization assigns into the caller's arrays (\<open>A[i, :] = - A[i, :]\<close> and
  \<open>b[i] = - b[i]\<close>): after the call on \<open>A = [[1]]\<close>, \<open>b = [-1]\<close> the arrays hold
  \<open>[[-1]]\<close> and \<open>[1]\<close>. The theorem is the claim as amended, on the caller's memory. The
  call writes through \<open>A\<close> and \<open>b\<close> only: every cell outside \<open>A\<close> and \<open>b\<close> keeps its
  value, and so does \<open>c\<close> when it shares no cell with \<open>A\<close> and \<open>b\<close>. Nothing is written
  when the sizes are inconsistent, where the call fails first, or when no entry of \<open>b\<close>
  is negative. When the sizes are consistent and no two elements of \<open>A\<close> and \<open>b\<close> are the
  same cell, \<open>A\<close> and \<open>b\<close> are left with the rows and entries of negative \<open>b[i]\<close> negated
  and the others as they were.
\<close>

theorem simplex_memory_after:
  assumes "simplex_in_memory key mem A b c = Some r"
  shows "(\<forall>a. a \<notin> cells A \<union> set b \<longrightarrow> memory_after r a = mem a)
       \<and> (set c \<inter> (cells A \<union> set b) = {} \<longrightarrow> load_vector (memory_after r) c = load_vector mem c)
       \<and> (length b \<noteq> length (view_rows A) \<or> length c \<noteq> view_ncols A
            \<longrightarrow> memory_after r = mem \<and> returned r = Inl IncompatibleSizes)
       \<and> ((\<forall>x\<in>set (load_vector mem b). \<not> flt x (Fin 0)) \<longrightarrow> memory_after r = mem)
       \<and> (length b = length (view_rows A) \<and> length c = view_ncols A \<and> separate A b
            \<longrightarrow> load_matrix (memory_after r) A = negate_rows (load_matrix mem A) (load_vector mem b)
              \<and> load_vector (memory_after r) b = negate_entries (load_vector mem b))"
proof (cases "length b = length (view_rows A) \<and> length c = view_ncols A")
  case False
  with assms have "memory_after r = mem" "returned r = Inl IncompatibleSizes"
    by (auto simp: simplex_in_memory_def Let_def split: if_splits)
  thus ?thesis using False by (auto simp: load_vector_def)
next
  case True
  hence len: "length b = length (view_rows A)" "length c = view_ncols A" by simp_all
  define nb where "nb = filter (\<lambda>i. flt (mem (b ! i)) (Fin 0)) [0..<length b]"
  have after: "memory_after r = normalize_signs A b nb mem"
    using assms unfolding simplex_in_memory_sizes_ok[OF len] nb_def by auto
  have nb: "\<forall>i\<in>set nb. i < length (view_rows A) \<and> i < length b"
    using len(1) by (simp add: nb_def)
  have frame: "memory_after r a = mem a" if "a \<notin> cells A \<union> set b" for a
    using normalize_frame[OF nb, of a mem] that by (simp add: after)
  have vec: "load_vector (memory_after r) c = load_vector mem c"
    if "set c \<inter> (cells A \<union> set b) = {}"
    using normalize_vector_frame[OF len(1) that] by (simp add: after nb_def)
  have none: "memory_after r = mem" if "\<forall>x\<in>set (load_vector mem b). \<not> flt x (Fin 0)"
  proof -
    from that have "nb = []" by (auto simp: nb_def load_vector_def filter_empty_conv)
    thus ?thesis by (simp add: after)
  qed
  have arrays: "load_matrix (memory_after r) A = negate_rows (load_matrix mem A) (load_vector mem b)"
    "load_vector (memory_after r) b = negate_entries (load_vector mem b)" if "separate A b"
    using normalize_matrix[OF that len(1)] normalize_entries[OF that len(1)]
    by (simp_all add: after nb_def)
  show ?thesis using True frame vec none arrays by blast
qed

theorem simplex_memory_after_witness:
  "simplex_in_memory id negative_memory one_cell [1] [2] =
     Some \<lparr>memory_after = negative_memory(0 := Fin (- 1), 1 := Fin 1),
           returned = Inr (negative_tableau, False, True)\<rparr>
   \<and> separate one_cell [1]
   \<and> load_matrix negative_memory one_cell = array2 [[Fin 1]]
   \<and> load_vector negative_memory [1] = [Fin (- 1)]
   \<and> load_matrix (negative_memory(0 := Fin (- 1), 1 := Fin 1)) one_cell
       = negate_rows (array2 [[Fin 1]]) [Fin (- 1)]
   \<and> load_vector (negative_memory(0 := Fin (- 1), 1 := Fin 1)) [1] = negate_entries [Fin (- 1)]
   \<and> load_vector (negative_memory(0 := Fin (- 1), 1 := Fin 1)) [2] = load_vector negative_memory [2]"
  using simplex_memory_after [OF negative_run [of id]] negative_run [of id]
  by (simp add: separate_def cells_def one_cell_def load_matrix_def load_vector_def
        negative_memory_def array2_def negate_rows_def negate_entries_def)

theorem simplex_mutates_counterexample:
  "simplex id negative_A negative_b negative_c =
     Some \<lparr>array_A = array2 [[Fin (- 1)]], array_b = [Fin 1], array_c = negative_c,
           result = Inr (negative_tableau, False, True)\<rparr>
   \<and> array2 [[Fin (- 1)]] \<noteq> negative_A \<and> [Fin 1] \<noteq> negative_b"
  using negative_simplex [of id]
  by (simp add: negative_A_def negative_b_def array2_def)

text \<open>
  Claim C8. For every input in which some entry of \<open>A\<close>, \<open>b\<close> or \<open>c\<close> is not finite,
  \<open>simplex\<close> fails fast with a malformed-input error before any tableau is built.

  The code has no such check: on \<open>A = [[nan]]\<close>, \<open>b = [1]\<close>, \<open>c = [1]\<close> it builds the
  tableau with the NaN in it and returns INFEASIBLE. The theorem is the claim as
  amended: the only validation is that of the sizes; on inconsistent sizes the call
  fails before it touches the arrays, and on consistent sizes it builds the first
  tableau from the entries as they are, and no later step raises the size error.
\<close>

theorem simplex_validation:
  "(length b \<noteq> length (rows A) \<or> length c \<noteq> ncols A
      \<longrightarrow> simplex key A b c =
            Some \<lparr>array_A = A, array_b = b, array_c = c, result = Inl IncompatibleSizes\<rparr>)
   \<and> (length b = length (rows A) \<and> length c = ncols A
      \<longrightarrow> simplex key A b c =
            map_option (\<lambda>r. \<lparr>array_A = negate_rows A b, array_b = negate_entries b,
                               array_c = c, result = r\<rparr>)
              (two_phases key (length (rows A)) (ncols A) c
                 (first_tableau (negate_rows A b) (negate_entries b)))
          \<and> (\<forall>r. simplex key A b c = Some r \<longrightarrow> result r \<noteq> Inl IncompatibleSizes))"
proof (intro conjI impI)
  assume "length b \<noteq> length (rows A) \<or> length c \<noteq> ncols A"
  thus "simplex key A b c =
            Some \<lparr>array_A = A, array_b = b, array_c = c, result = Inl IncompatibleSizes\<rparr>"
    by (auto simp: simplex_def shape_def Let_def)
next
  assume ok: "length b = length (rows A) \<and> length c = ncols A"
  thus eq: "simplex key A b c =
            map_option (\<lambda>r. \<lparr>array_A = negate_rows A b, array_b = negate_entries b,
                               array_c = c, result = r\<rparr>)
              (two_phases key (length (rows A)) (ncols A) c
                 (first_tableau (negate_rows A b) (negate_entries b)))"
    by (simp add: simplex_sizes_ok)
  show "\<forall>r. simplex key A b c = Some r \<longrightarrow> result r \<noteq> Inl IncompatibleSizes"
    by (auto simp: eq dest: two_phases_errors)
qed

theorem simplex_validation_witness:
  "simplex id (array2 [[NaN]]) [Fin 1] [Fin 1] =
     Some \<lparr>array_A = array2 [[NaN]], array_b = [Fin 1], array_c = [Fin 1],
           result = Inr (nan_tableau, False, True)\<rparr>
   \<and> simplex id (array2 [[NaN]]) [] [Fin 1] =
     Some \<lparr>array_A = array2 [[NaN]], array_b = [], array_c = [Fin 1],
           result = Inl IncompatibleSizes\<rparr>"
proof -
  from simplex_validation [of "[]" "array2 [[NaN]]" "[Fin 1]" id]
  have "simplex id (array2 [[NaN]]) [] [Fin 1] =
     Some \<lparr>array_A = array2 [[NaN]], array_b = [], array_c = [Fin 1],
           result = Inl IncompatibleSizes\<rparr>"
    by (simp add: array2_def)
  with nan_simplex [of id] show ?thesis by simp
qed

theorem simplex_nan_counterexample:
  "\<not> finite64 (entry (array2 [[NaN]]) 0 0)
   \<and> simplex id (array2 [[NaN]]) [Fin 1] [Fin 1] =
       Some \<lparr>array_A = array2 [[NaN]], array_b = [Fin 1], array_c = [Fin 1],
             result = Inr (nan_tableau, False, True)\<rparr>"
  using nan_simplex [of id] by (simp add: array2_def entry_def finite64_def)

subsection \<open>Redundant constraints\<close>

text \<open>
  The problem \<open>orig\<close>: minimise \<open>x1 + x2\<close> subject to \<open>x1 = 1\<close>, \<open>x1 = 1\<close>, \<open>x2 = 1\<close>,
  \<open>x \<ge> 0\<close>; the second constraint is redundant.  The problem \<open>dup\<close> is \<open>orig\<close> with row 0 of
  \<open>A\<close> and entry 0 of \<open>b\<close> appended once more.  The arrays \<open>orig_t\<close>, \<open>orig_t2\<close>, ... and
  \<open>dup_t\<close>, \<open>dup_t2\<close>, ... are the successive values of \<open>tableau\<close> and \<open>phaseOneTableau\<close>,
  \<open>orig_s\<close> and \<open>orig_s2\<close> those of \<open>startPhaseTwo\<close>.  The run of \<open>orig\<close> does not depend on the
  order in which Python iterates over its sets; the run of \<open>dup\<close> is evaluated for both
  orders of the set \<open>{3, 5}\<close> of auxiliary columns it has to clean.
\<close>

definition orig_A :: ndarray where
  "orig_A = array2 [[Fin 1, Fin 0], [Fin 1, Fin 0], [Fin 0, Fin 1]]"

definition orig_b :: "float64 list" where
  "orig_b = [Fin 1, Fin 1, Fin 1]"

definition orig_c :: "float64 list" where
  "orig_c = [Fin 1, Fin 1]"

definition orig_t :: ndarray where
  "orig_t = \<lparr>ncols = 6, rows =
     [[Fin 1, Fin 0, Fin 1, Fin 0, Fin 0, Fin 1],
      [Fin 1, Fin 0, Fin 0, Fin 1, Fin 0, Fin 1],
      [Fin 0, Fin 1, Fin 0, Fin 0, Fin 1, Fin 1],
      [Fin (- 2), Fin (- 1), Fin 0, Fin 0, Fin 0, Fin (- 3)]]\<rparr>"

lemma orig_negate:
  "negate_rows orig_A orig_b = orig_A" "negate_entries orig_b = orig_b"
  by (simp_all add: orig_A_def orig_b_def array2_def negate_rows_def negate_entries_def upt_conv_Cons)

lemma orig_first: "first_tableau orig_A orig_b = orig_t"
  by (simp add: first_tableau_def orig_A_def orig_b_def orig_t_def np_defs fl_defs upt_conv_Cons)

lemma orig_t_select: "simplexTableau orig_t = Inr (Some 0, Some 0, False, True)"
proof -
  have "simplexTableau orig_t = (if feq (Fin 1) PInf then Inr (None, None, False, False)
      else Inr (Some 0, Some 0, False, True))"
  proof (rule simplexTableau_pivot)
    show "rows orig_t = [[Fin 1, Fin 0, Fin 1, Fin 0, Fin 0, Fin 1], [Fin 1, Fin 0, Fin 0, Fin 1, Fin 0, Fin 1], [Fin 0, Fin 1, Fin 0, Fin 0, Fin 1, Fin 1]] @ [[Fin (- 2), Fin (- 1), Fin 0, Fin 0, Fin 0, Fin (- 3)]]"
      by (simp add: orig_t_def)
    show "map (\<lambda>x. flt x (Fin 0)) (butlast [Fin (- 2), Fin (- 1), Fin 0, Fin 0, Fin 0, Fin (- 3)]) = [True, True, False, False, False]" by simp
    show "np_any [True, True, False, False, False]" by (simp add: np_any_def)
    show "np_argmax [True, True, False, False, False] = 0" by (simp add: np_argmax_def np_any_def)
    show "map (\<lambda>r. if fgt (r ! 0) (Fin 0) then fdiv (last r) (r ! 0) else PInf)
            [[Fin 1, Fin 0, Fin 1, Fin 0, Fin 0, Fin 1], [Fin 1, Fin 0, Fin 0, Fin 1, Fin 0, Fin 1], [Fin 0, Fin 1, Fin 0, Fin 0, Fin 1, Fin 1]] = [Fin 1, Fin 1, PInf]"
      by (simp add: fl_defs)
    show "np_argmin [Fin 1, Fin 1, PInf] = Inr 0" by (simp add: np_argmin_def fge_def)
    show "[Fin 1, Fin 1, PInf] ! 0 = Fin 1" by simp
  qed
  thus ?thesis by (simp add: feq_def)
qed

definition orig_t2 :: ndarray where
  "orig_t2 = \<lparr>ncols = 6, rows =
     [[Fin 1, Fin 0, Fin 1, Fin 0, Fin 0, Fin 1],
      [Fin 0, Fin 0, Fin (- 1), Fin 1, Fin 0, Fin 0],
      [Fin 0, Fin 1, Fin 0, Fin 0, Fin 1, Fin 1],
      [Fin 0, Fin (- 1), Fin 2, Fin 0, Fin 0, Fin (- 1)]]\<rparr>"

lemma orig_t2_select: "simplexTableau orig_t2 = Inr (Some 1, Some 2, False, True)"
proof -
  have "simplexTableau orig_t2 = (if feq (Fin 1) PInf then Inr (None, None, False, False)
      else Inr (Some 1, Some 2, False, True))"
  proof (rule simplexTableau_pivot)
    show "rows orig_t2 = [[Fin 1, Fin 0, Fin 1, Fin 0, Fin 0, Fin 1], [Fin 0, Fin 0, Fin (- 1), Fin 1, Fin 0, Fin 0], [Fin 0, Fin 1, Fin 0, Fin 0, Fin 1, Fin 1]] @ [[Fin 0, Fin (- 1), Fin 2, Fin 0, Fin 0, Fin (- 1)]]"
      by (simp add: orig_t2_def)
    show "map (\<lambda>x. flt x (Fin 0)) (butlast [Fin 0, Fin (- 1), Fin 2, Fin 0, Fin 0, Fin (- 1)]) = [False, True, False, False, False]" by simp
    show "np_any [False, True, False, False, False]" by (simp add: np_any_def)
    show "np_argmax [False, True, False, False, False] = 1" by (simp add: np_argmax_def np_any_def)
    show "map (\<lambda>r. if fgt (r ! 1) (Fin 0) then fdiv (last r) (r ! 1) else PInf)
            [[Fin 1, Fin 0, Fin 1, Fin 0, Fin 0, Fin 1], [Fin 0, Fin 0, Fin (- 1), Fin 1, Fin 0, Fin 0], [Fin 0, Fin 1, Fin 0, Fin 0, Fin 1, Fin 1]] = [PInf, PInf, Fin 1]"
      by (simp add: fl_defs)
    show "np_argmin [PInf, PInf, Fin 1] = Inr 2" by (simp add: np_argmin_def fge_def)
    show "[PInf, PInf, Fin 1] ! 2 = Fin 1" by simp
  qed
  thus ?thesis by (simp add: feq_def)
qed

definition orig_t3 :: ndarray where
  "orig_t3 = \<lparr>ncols = 6, rows =
     [[Fin 1, Fin 0, Fin 1, Fin 0, Fin 0, Fin 1],
      [Fin 0, Fin 0, Fin (- 1), Fin 1, Fin 0, Fin 0],
      [Fin 0, Fin 1, Fin 0, Fin 0, Fin 1, Fin 1],
      [Fin 0, Fin 0, Fin 2, Fin 0, Fin 1, Fin 0]]\<rparr>"

lemma orig_t3_select: "simplexTableau orig_t3 = Inr (None, None, True, True)"
proof (rule simplexTableau_optimal)
  show "rows orig_t3 = [[Fin 1, Fin 0, Fin 1, Fin 0, Fin 0, Fin 1], [Fin 0, Fin 0, Fin (- 1), Fin 1, Fin 0, Fin 0], [Fin 0, Fin 1, Fin 0, Fin 0, Fin 1, Fin 1]] @ [[Fin 0, Fin 0, Fin 2, Fin 0, Fin 1, Fin 0]]"
    by (simp add: orig_t3_def)
  show "map (\<lambda>x. flt x (Fin 0)) (butlast [Fin 0, Fin 0, Fin 2, Fin 0, Fin 1, Fin 0]) = [False, False, False, False, False]" by simp
  show "\<not> np_any [False, False, False, False, False]" by (simp add: np_any_def)
qed

lemma orig_t_pivot: "pivoting orig_t (int 0) (int 0) = Inr orig_t2"
  by (simp add: pivoting_in_range orig_t_def orig_t2_def entry_def fl_defs upt_conv_Cons)

lemma orig_t2_pivot: "pivoting orig_t2 (int 1) (int 2) = Inr orig_t3"
  by (simp add: pivoting_in_range orig_t2_def orig_t3_def entry_def fl_defs upt_conv_Cons)

lemma orig_phase_one: "simplexAlgorithmTableau orig_t = Some (Inr (orig_t3, True, False))"
  by (rule algorithm_step [OF orig_t_select orig_t_pivot],
     (rule algorithm_step [OF orig_t2_select orig_t2_pivot],
     (rule algorithm_optimal [OF orig_t3_select])))

lemma orig_t3_getRows5: "getRows orig_t3 [0..<5] = Inr [Some 0, Some 2, None, Some 1, None]"
  by (simp add: getRow_def shape_def column_def orig_t3_def fl_defs upt_conv_Cons)

definition orig_t4 :: ndarray where
  "orig_t4 = \<lparr>ncols = 6, rows =
     [[Fin 1, Fin 0, Fin 1, Fin 0, Fin 0, Fin 1],
      [Fin 0, Fin 1, Fin 0, Fin 0, Fin 1, Fin 1],
      [Fin 0, Fin 0, Fin 2, Fin 0, Fin 1, Fin 0]]\<rparr>"

lemma orig_t4_getRows5: "getRows orig_t4 [0..<5] = Inr [Some 0, Some 1, None, None, None]"
  by (simp add: getRow_def shape_def column_def orig_t4_def fl_defs upt_conv_Cons)

lemma orig_clean_pass0:
  "clean_pass key 2 3 (orig_t3, [Some 0, Some 2, None, Some 1, None], ([]::nat list)) =
     Again (orig_t4, [Some 0, Some 1, None, None, None], ([]::nat list) @ [1])"
proof (rule clean_pass_delete)
  show "filter (\<lambda>k. [Some 0, Some 2, None, Some 1, None] ! k \<noteq> None) [0..<length [Some 0, Some 2, None, Some 1, None]] = [0::nat, 1, 3]"
    by simp
  show "filter (\<lambda>k. 2 \<le> k \<and> k < 2 + 3) [0::nat, 1, 3] = [3::nat]"
    by simp
  show "[3::nat] \<noteq> []" by simp
  show "hd (set_order key [3::nat]) = (3::nat)" by (simp add: set_order_def sort_key_def)
  show "[Some 0, Some 2, None, Some 1, None] ! 3 = Some 1" by simp
  show "1 < length (rows orig_t3)" by (simp add: orig_t3_def)
  show "set_order key (filter (\<lambda>k. k \<notin> set [0::nat, 1, 3]) [0..<2]) = ([]::nat list)"
    by (simp add: set_order_def sort_key_def upt_conv_Cons)
  show "map (\<lambda>k. fgt (fabs (rows orig_t3 ! 1 ! k)) eps) ([]::nat list) = []"
    by (simp add: orig_t3_def fl_defs)
  show "\<not> np_any []" by (simp add: np_any_def)
  show "np_delete_rows orig_t3 (([]::nat list) @ [1]) = Inr orig_t4"
    by (simp add: np_delete_rows_def drop_indices_def orig_t3_def orig_t4_def upt_conv_Cons)
  show "getRows orig_t4 [0..<3 + 2] = Inr [Some 0, Some 1, None, None, None]"
    using orig_t4_getRows5 by simp
qed

lemma orig_clean_pass1:
  "clean_pass key 2 3 (orig_t4, [Some 0, Some 1, None, None, None], [1::nat]) =
     Done (Inr (orig_t4, [Some 0, Some 1, None, None, None], [1::nat]))"
proof (rule clean_pass_done)
  show "filter (\<lambda>k. [Some 0, Some 1, None, None, None] ! k \<noteq> None) [0..<length [Some 0, Some 1, None, None, None]] = [0::nat, 1]"
    by simp
  show "filter (\<lambda>k. 2 \<le> k \<and> k < 2 + 3) [0::nat, 1] = ([]::nat list)"
    by simp
qed

lemma orig_clean:
  "clean_loop key 2 3 (orig_t3, [Some 0, Some 2, None, Some 1, None], ([]::nat list)) =
     Inr (orig_t4, [Some 0, Some 1, None, None, None], [1::nat])"
proof -
  have c1: "clean_loop key 2 3 (orig_t4, [Some 0, Some 1, None, None, None], [1::nat]) =
     Inr (orig_t4, [Some 0, Some 1, None, None, None], [1::nat])"
    by (rule clean_loop_done [OF orig_clean_pass1])
  have c0: "clean_loop key 2 3 (orig_t3, [Some 0, Some 2, None, Some 1, None], ([]::nat list)) =
     Inr (orig_t4, [Some 0, Some 1, None, None, None], [1::nat])"
    using orig_clean_pass0 c1 by (simp add: clean_loop_again)
  show ?thesis by (rule c0)
qed

definition orig_s :: ndarray where
  "orig_s = \<lparr>ncols = 3, rows =
     [[Fin 1, Fin 0, Fin 1],
      [Fin 0, Fin 1, Fin 1],
      [Fin 0, Fin 0, Fin 0]]\<rparr>"

definition orig_s2 :: ndarray where
  "orig_s2 = \<lparr>ncols = 3, rows =
     [[Fin 1, Fin 0, Fin 1],
      [Fin 0, Fin 1, Fin 1],
      [Fin 0, Fin 0, Fin (- 2)]]\<rparr>"

lemma orig_s_getRows2: "getRows orig_s [0..<2] = Inr [Some 0, Some 1]"
  by (simp add: getRow_def shape_def column_def orig_s_def fl_defs upt_conv_Cons)

lemma orig_s2_select: "simplexTableau orig_s2 = Inr (None, None, True, True)"
proof (rule simplexTableau_optimal)
  show "rows orig_s2 = [[Fin 1, Fin 0, Fin 1], [Fin 0, Fin 1, Fin 1]] @ [[Fin 0, Fin 0, Fin (- 2)]]"
    by (simp add: orig_s2_def)
  show "map (\<lambda>x. flt x (Fin 0)) (butlast [Fin 0, Fin 0, Fin (- 2)]) = [False, False]" by simp
  show "\<not> np_any [False, False]" by (simp add: np_any_def)
qed

lemma orig_phase_two: "simplexAlgorithmTableau orig_s2 = Some (Inr (orig_s2, True, False))"
  by (rule algorithm_optimal [OF orig_s2_select])

lemma orig_two_phases:
  "two_phases key 3 2 orig_c orig_t = Some (Inr (orig_s2, False, False))"
proof (rule two_phases_through)
  show "simplexAlgorithmTableau orig_t = Some (Inr (orig_t3, True, False))" by (rule orig_phase_one)
  show "\<not> flt (last (last (rows orig_t3))) (fneg sqrt_eps)" by (simp add: orig_t3_def fl_defs)
  show "getRows orig_t3 [0..<3 + 2] = Inr [Some 0, Some 2, None, Some 1, None]" using orig_t3_getRows5 by simp
  show "clean_loop key 2 3 (orig_t3, [Some 0, Some 2, None, Some 1, None], []) =
      Inr (orig_t4, [Some 0, Some 1, None, None, None], [1::nat])" by (rule orig_clean)
  show "np_delete_cols orig_t4 [2..<2 + 3] = Inr orig_s"
    by (simp add: np_delete_cols_def drop_indices_def orig_t4_def orig_s_def upt_conv_Cons)
  show "getRows orig_s [0..<2] = Inr [Some 0, Some 1]" by (rule orig_s_getRows2)
  show "rows orig_s \<noteq> []" by (simp add: orig_s_def)
  show "orig_s\<lparr>rows := butlast (rows orig_s) @ [phase_two_row orig_c 2 orig_s [Some 0, Some 1]]\<rparr> = orig_s2"
    by (simp add: phase_two_row_def orig_c_def orig_s_def orig_s2_def np_defs fl_defs upt_conv_Cons)
  show "simplexAlgorithmTableau orig_s2 = Some (Inr (orig_s2, True, False))" by (rule orig_phase_two)
qed

lemma orig_simplex:
  "simplex key orig_A orig_b orig_c =
     Some \<lparr>array_A = orig_A, array_b = orig_b, array_c = orig_c,
           result = Inr (orig_s2, False, False)\<rparr>"
proof -
  have 1: "length orig_b = length (rows orig_A)" "length orig_c = ncols orig_A"
    by (simp_all add: orig_A_def orig_b_def orig_c_def array2_def)
  have 2: "length (rows orig_A) = 3" "ncols orig_A = 2"
    by (simp_all add: orig_A_def array2_def)
  show ?thesis
    by (simp add: simplex_sizes_ok[OF 1] 2 orig_negate orig_first orig_two_phases)
qed

definition dup_A :: ndarray where
  "dup_A = array2 [[Fin 1, Fin 0], [Fin 1, Fin 0], [Fin 0, Fin 1], [Fin 1, Fin 0]]"

definition dup_b :: "float64 list" where
  "dup_b = [Fin 1, Fin 1, Fin 1, Fin 1]"

definition dup_t :: ndarray where
  "dup_t = \<lparr>ncols = 7, rows =
     [[Fin 1, Fin 0, Fin 1, Fin 0, Fin 0, Fin 0, Fin 1],
      [Fin 1, Fin 0, Fin 0, Fin 1, Fin 0, Fin 0, Fin 1],
      [Fin 0, Fin 1, Fin 0, Fin 0, Fin 1, Fin 0, Fin 1],
      [Fin 1, Fin 0, Fin 0, Fin 0, Fin 0, Fin 1, Fin 1],
      [Fin (- 3), Fin (- 1), Fin 0, Fin 0, Fin 0, Fin 0, Fin (- 4)]]\<rparr>"

lemma dup_negate:
  "negate_rows dup_A dup_b = dup_A" "negate_entries dup_b = dup_b"
  by (simp_all add: dup_A_def dup_b_def array2_def negate_rows_def negate_entries_def upt_conv_Cons)

lemma dup_first: "first_tableau dup_A dup_b = dup_t"
  by (simp add: first_tableau_def dup_A_def dup_b_def dup_t_def np_defs fl_defs upt_conv_Cons)

lemma dup_t_select: "simplexTableau dup_t = Inr (Some 0, Some 0, False, True)"
proof -
  have "simplexTableau dup_t = (if feq (Fin 1) PInf then Inr (None, None, False, False)
      else Inr (Some 0, Some 0, False, True))"
  proof (rule simplexTableau_pivot)
    show "rows dup_t = [[Fin 1, Fin 0, Fin 1, Fin 0, Fin 0, Fin 0, Fin 1], [Fin 1, Fin 0, Fin 0, Fin 1, Fin 0, Fin 0, Fin 1], [Fin 0, Fin 1, Fin 0, Fin 0, Fin 1, Fin 0, Fin 1], [Fin 1, Fin 0, Fin 0, Fin 0, Fin 0, Fin 1, Fin 1]] @ [[Fin (- 3), Fin (- 1), Fin 0, Fin 0, Fin 0, Fin 0, Fin (- 4)]]"
      by (simp add: dup_t_def)
    show "map (\<lambda>x. flt x (Fin 0)) (butlast [Fin (- 3), Fin (- 1), Fin 0, Fin 0, Fin 0, Fin 0, Fin (- 4)]) = [True, True, False, False, False, False]" by simp
    show "np_any [True, True, False, False, False, False]" by (simp add: np_any_def)
    show "np_argmax [True, True, False, False, False, False] = 0" by (simp add: np_argmax_def np_any_def)
    show "map (\<lambda>r. if fgt (r ! 0) (Fin 0) then fdiv (last r) (r ! 0) else PInf)
            [[Fin 1, Fin 0, Fin 1, Fin 0, Fin 0, Fin 0, Fin 1], [Fin 1, Fin 0, Fin 0, Fin 1, Fin 0, Fin 0, Fin 1], [Fin 0, Fin 1, Fin 0, Fin 0, Fin 1, Fin 0, Fin 1], [Fin 1, Fin 0, Fin 0, Fin 0, Fin 0, Fin 1, Fin 1]] = [Fin 1, Fin 1, PInf, Fin 1]"
      by (simp add: fl_defs)
    show "np_argmin [Fin 1, Fin 1, PInf, Fin 1] = Inr 0" by (simp add: np_argmin_def fge_def)
    show "[Fin 1, Fin 1, PInf, Fin 1] ! 0 = Fin 1" by simp
  qed
  thus ?thesis by (simp add: feq_def)
qed

definition dup_t2 :: ndarray where
  "dup_t2 = \<lparr>ncols = 7, rows =
     [[Fin 1, Fin 0, Fin 1, Fin 0, Fin 0, Fin 0, Fin 1],
      [Fin 0, Fin 0, Fin (- 1), Fin 1, Fin 0, Fin 0, Fin 0],
      [Fin 0, Fin 1, Fin 0, Fin 0, Fin 1, Fin 0, Fin 1],
      [Fin 0, Fin 0, Fin (- 1), Fin 0, Fin 0, Fin 1, Fin 0],
      [Fin 0, Fin (- 1), Fin 3, Fin 0, Fin 0, Fin 0, Fin (- 1)]]\<rparr>"

lemma dup_t2_select: "simplexTableau dup_t2 = Inr (Some 1, Some 2, False, True)"
proof -
  have "simplexTableau dup_t2 = (if feq (Fin 1) PInf then Inr (None, None, False, False)
      else Inr (Some 1, Some 2, False, True))"
  proof (rule simplexTableau_pivot)
    show "rows dup_t2 = [[Fin 1, Fin 0, Fin 1, Fin 0, Fin 0, Fin 0, Fin 1], [Fin 0, Fin 0, Fin (- 1), Fin 1, Fin 0, Fin 0, Fin 0], [Fin 0, Fin 1, Fin 0, Fin 0, Fin 1, Fin 0, Fin 1], [Fin 0, Fin 0, Fin (- 1), Fin 0, Fin 0, Fin 1, Fin 0]] @ [[Fin 0, Fin (- 1), Fin 3, Fin 0, Fin 0, Fin 0, Fin (- 1)]]"
      by (simp add: dup_t2_def)
    show "map (\<lambda>x. flt x (Fin 0)) (butlast [Fin 0, Fin (- 1), Fin 3, Fin 0, Fin 0, Fin 0, Fin (- 1)]) = [False, True, False, False, False, False]" by simp
    show "np_any [False, True, False, False, False, False]" by (simp add: np_any_def)
    show "np_argmax [False, True, False, False, False, False] = 1" by (simp add: np_argmax_def np_any_def)
    show "map (\<lambda>r. if fgt (r ! 1) (Fin 0) then fdiv (last r) (r ! 1) else PInf)
            [[Fin 1, Fin 0, Fin 1, Fin 0, Fin 0, Fin 0, Fin 1], [Fin 0, Fin 0, Fin (- 1), Fin 1, Fin 0, Fin 0, Fin 0], [Fin 0, Fin 1, Fin 0, Fin 0, Fin 1, Fin 0, Fin 1], [Fin 0, Fin 0, Fin (- 1), Fin 0, Fin 0, Fin 1, Fin 0]] = [PInf, PInf, Fin 1, PInf]"
      by (simp add: fl_defs)
    show "np_argmin [PInf, PInf, Fin 1, PInf] = Inr 2" by (simp add: np_argmin_def fge_def)
    show "[PInf, PInf, Fin 1, PInf] ! 2 = Fin 1" by simp
  qed
  thus ?thesis by (simp add: feq_def)
qed

definition dup_t3 :: ndarray where
  "dup_t3 = \<lparr>ncols = 7, rows =
     [[Fin 1, Fin 0, Fin 1, Fin 0, Fin 0, Fin 0, Fin 1],
      [Fin 0, Fin 0, Fin (- 1), Fin 1, Fin 0, Fin 0, Fin 0],
      [Fin 0, Fin 1, Fin 0, Fin 0, Fin 1, Fin 0, Fin 1],
      [Fin 0, Fin 0, Fin (- 1), Fin 0, Fin 0, Fin 1, Fin 0],
      [Fin 0, Fin 0, Fin 3, Fin 0, Fin 1, Fin 0, Fin 0]]\<rparr>"

lemma dup_t3_select: "simplexTableau dup_t3 = Inr (None, None, True, True)"
proof (rule simplexTableau_optimal)
  show "rows dup_t3 = [[Fin 1, Fin 0, Fin 1, Fin 0, Fin 0, Fin 0, Fin 1], [Fin 0, Fin 0, Fin (- 1), Fin 1, Fin 0, Fin 0, Fin 0], [Fin 0, Fin 1, Fin 0, Fin 0, Fin 1, Fin 0, Fin 1], [Fin 0, Fin 0, Fin (- 1), Fin 0, Fin 0, Fin 1, Fin 0]] @ [[Fin 0, Fin 0, Fin 3, Fin 0, Fin 1, Fin 0, Fin 0]]"
    by (simp add: dup_t3_def)
  show "map (\<lambda>x. flt x (Fin 0)) (butlast [Fin 0, Fin 0, Fin 3, Fin 0, Fin 1, Fin 0, Fin 0]) = [False, False, False, False, False, False]" by simp
  show "\<not> np_any [False, False, False, False, False, False]" by (simp add: np_any_def)
qed

lemma dup_t_pivot: "pivoting dup_t (int 0) (int 0) = Inr dup_t2"
  by (simp add: pivoting_in_range dup_t_def dup_t2_def entry_def fl_defs upt_conv_Cons)

lemma dup_t2_pivot: "pivoting dup_t2 (int 1) (int 2) = Inr dup_t3"
  by (simp add: pivoting_in_range dup_t2_def dup_t3_def entry_def fl_defs upt_conv_Cons)

lemma dup_phase_one: "simplexAlgorithmTableau dup_t = Some (Inr (dup_t3, True, False))"
  by (rule algorithm_step [OF dup_t_select dup_t_pivot],
     (rule algorithm_step [OF dup_t2_select dup_t2_pivot],
     (rule algorithm_optimal [OF dup_t3_select])))

lemma dup_t3_getRows6: "getRows dup_t3 [0..<6] = Inr [Some 0, Some 2, None, Some 1, None, Some 3]"
  by (simp add: getRow_def shape_def column_def dup_t3_def fl_defs upt_conv_Cons)

definition dup_t4 :: ndarray where
  "dup_t4 = \<lparr>ncols = 7, rows =
     [[Fin 1, Fin 0, Fin 1, Fin 0, Fin 0, Fin 0, Fin 1],
      [Fin 0, Fin 1, Fin 0, Fin 0, Fin 1, Fin 0, Fin 1],
      [Fin 0, Fin 0, Fin (- 1), Fin 0, Fin 0, Fin 1, Fin 0],
      [Fin 0, Fin 0, Fin 3, Fin 0, Fin 1, Fin 0, Fin 0]]\<rparr>"

lemma dup_t4_getRows6: "getRows dup_t4 [0..<6] = Inr [Some 0, Some 1, None, None, None, Some 2]"
  by (simp add: getRow_def shape_def column_def dup_t4_def fl_defs upt_conv_Cons)

lemma dup_clean_pass0:
  "clean_pass id 2 4 (dup_t3, [Some 0, Some 2, None, Some 1, None, Some 3], ([]::nat list)) =
     Again (dup_t4, [Some 0, Some 1, None, None, None, Some 2], ([]::nat list) @ [1])"
proof (rule clean_pass_delete)
  show "filter (\<lambda>k. [Some 0, Some 2, None, Some 1, None, Some 3] ! k \<noteq> None) [0..<length [Some 0, Some 2, None, Some 1, None, Some 3]] = [0::nat, 1, 3, 5]"
    by simp
  show "filter (\<lambda>k. 2 \<le> k \<and> k < 2 + 4) [0::nat, 1, 3, 5] = [3::nat, 5]"
    by simp
  show "[3::nat, 5] \<noteq> []" by simp
  show "hd (set_order id [3::nat, 5]) = (3::nat)" by (simp add: set_order_def sort_key_def)
  show "[Some 0, Some 2, None, Some 1, None, Some 3] ! 3 = Some 1" by simp
  show "1 < length (rows dup_t3)" by (simp add: dup_t3_def)
  show "set_order id (filter (\<lambda>k. k \<notin> set [0::nat, 1, 3, 5]) [0..<2]) = ([]::nat list)"
    by (simp add: set_order_def sort_key_def upt_conv_Cons)
  show "map (\<lambda>k. fgt (fabs (rows dup_t3 ! 1 ! k)) eps) ([]::nat list) = []"
    by (simp add: dup_t3_def fl_defs)
  show "\<not> np_any []" by (simp add: np_any_def)
  show "np_delete_rows dup_t3 (([]::nat list) @ [1]) = Inr dup_t4"
    by (simp add: np_delete_rows_def drop_indices_def dup_t3_def dup_t4_def upt_conv_Cons)
  show "getRows dup_t4 [0..<4 + 2] = Inr [Some 0, Some 1, None, None, None, Some 2]"
    using dup_t4_getRows6 by simp
qed

definition dup_t5 :: ndarray where
  "dup_t5 = \<lparr>ncols = 7, rows =
     [[Fin 1, Fin 0, Fin 1, Fin 0, Fin 0, Fin 0, Fin 1],
      [Fin 0, Fin 0, Fin 3, Fin 0, Fin 1, Fin 0, Fin 0]]\<rparr>"

lemma dup_t5_getRows6: "getRows dup_t5 [0..<6] = Inr [Some 0, None, None, None, Some 1, None]"
  by (simp add: getRow_def shape_def column_def dup_t5_def fl_defs upt_conv_Cons)

lemma dup_clean_pass1:
  "clean_pass id 2 4 (dup_t4, [Some 0, Some 1, None, None, None, Some 2], [1::nat]) =
     Again (dup_t5, [Some 0, None, None, None, Some 1, None], [1::nat] @ [2])"
proof (rule clean_pass_delete)
  show "filter (\<lambda>k. [Some 0, Some 1, None, None, None, Some 2] ! k \<noteq> None) [0..<length [Some 0, Some 1, None, None, None, Some 2]] = [0::nat, 1, 5]"
    by simp
  show "filter (\<lambda>k. 2 \<le> k \<and> k < 2 + 4) [0::nat, 1, 5] = [5::nat]"
    by simp
  show "[5::nat] \<noteq> []" by simp
  show "hd (set_order id [5::nat]) = (5::nat)" by (simp add: set_order_def sort_key_def)
  show "[Some 0, Some 1, None, None, None, Some 2] ! 5 = Some 2" by simp
  show "2 < length (rows dup_t4)" by (simp add: dup_t4_def)
  show "set_order id (filter (\<lambda>k. k \<notin> set [0::nat, 1, 5]) [0..<2]) = ([]::nat list)"
    by (simp add: set_order_def sort_key_def upt_conv_Cons)
  show "map (\<lambda>k. fgt (fabs (rows dup_t4 ! 2 ! k)) eps) ([]::nat list) = []"
    by (simp add: dup_t4_def fl_defs)
  show "\<not> np_any []" by (simp add: np_any_def)
  show "np_delete_rows dup_t4 ([1::nat] @ [2]) = Inr dup_t5"
    by (simp add: np_delete_rows_def drop_indices_def dup_t4_def dup_t5_def upt_conv_Cons)
  show "getRows dup_t5 [0..<4 + 2] = Inr [Some 0, None, None, None, Some 1, None]"
    using dup_t5_getRows6 by simp
qed

lemma dup_clean_pass2:
  "clean_pass id 2 4 (dup_t5, [Some 0, None, None, None, Some 1, None], [1::nat, 2]) =
     Done (Inl IndexError)"
proof (rule clean_pass_delete_error)
  show "filter (\<lambda>k. [Some 0, None, None, None, Some 1, None] ! k \<noteq> None) [0..<length [Some 0, None, None, None, Some 1, None]] = [0::nat, 4]"
    by simp
  show "filter (\<lambda>k. 2 \<le> k \<and> k < 2 + 4) [0::nat, 4] = [4::nat]"
    by simp
  show "[4::nat] \<noteq> []" by simp
  show "hd (set_order id [4::nat]) = (4::nat)" by (simp add: set_order_def sort_key_def)
  show "[Some 0, None, None, None, Some 1, None] ! 4 = Some 1" by simp
  show "1 < length (rows dup_t5)" by (simp add: dup_t5_def)
  show "set_order id (filter (\<lambda>k. k \<notin> set [0::nat, 4]) [0..<2]) = [1::nat]"
    by (simp add: set_order_def sort_key_def upt_conv_Cons)
  show "map (\<lambda>k. fgt (fabs (rows dup_t5 ! 1 ! k)) eps) [1::nat] = [False]"
    by (simp add: dup_t5_def fl_defs)
  show "\<not> np_any [False]" by (simp add: np_any_def)
  show "np_delete_rows dup_t5 ([1::nat, 2] @ [1]) = Inl IndexError"
    by (simp add: np_delete_rows_def dup_t5_def)
qed

lemma dup_clean:
  "clean_loop id 2 4 (dup_t3, [Some 0, Some 2, None, Some 1, None, Some 3], ([]::nat list)) =
     Inl IndexError"
proof -
  have c2: "clean_loop id 2 4 (dup_t5, [Some 0, None, None, None, Some 1, None], [1::nat, 2]) =
     Inl IndexError"
    by (rule clean_loop_done [OF dup_clean_pass2])
  have c1: "clean_loop id 2 4 (dup_t4, [Some 0, Some 1, None, None, None, Some 2], [1::nat]) =
     Inl IndexError"
    using dup_clean_pass1 c2 by (simp add: clean_loop_again)
  have c0: "clean_loop id 2 4 (dup_t3, [Some 0, Some 2, None, Some 1, None, Some 3], ([]::nat list)) =
     Inl IndexError"
    using dup_clean_pass0 c1 by (simp add: clean_loop_again)
  show ?thesis by (rule c0)
qed

lemma dup_two_phases:
  "two_phases id 4 2 orig_c dup_t = Some (Inl IndexError)"
proof (rule two_phases_clean_error)
  show "simplexAlgorithmTableau dup_t = Some (Inr (dup_t3, True, False))" by (rule dup_phase_one)
  show "\<not> flt (last (last (rows dup_t3))) (fneg sqrt_eps)" by (simp add: dup_t3_def fl_defs)
  show "getRows dup_t3 [0..<4 + 2] = Inr [Some 0, Some 2, None, Some 1, None, Some 3]" using dup_t3_getRows6 by simp
  show "clean_loop id 2 4 (dup_t3, [Some 0, Some 2, None, Some 1, None, Some 3], []) = Inl IndexError" by (rule dup_clean)
qed

lemma dup_simplex:
  "simplex id dup_A dup_b orig_c =
     Some \<lparr>array_A = dup_A, array_b = dup_b, array_c = orig_c,
           result = Inl IndexError\<rparr>"
proof -
  have 1: "length dup_b = length (rows dup_A)" "length orig_c = ncols dup_A"
    by (simp_all add: dup_A_def dup_b_def orig_c_def array2_def)
  have 2: "length (rows dup_A) = 4" "ncols dup_A = 2"
    by (simp_all add: dup_A_def array2_def)
  show ?thesis
    by (simp add: simplex_sizes_ok[OF 1] 2 dup_negate dup_first dup_two_phases)
qed

definition dup_t6 :: ndarray where
  "dup_t6 = \<lparr>ncols = 7, rows =
     [[Fin 1, Fin 0, Fin 1, Fin 0, Fin 0, Fin 0, Fin 1],
      [Fin 0, Fin 0, Fin (- 1), Fin 1, Fin 0, Fin 0, Fin 0],
      [Fin 0, Fin 1, Fin 0, Fin 0, Fin 1, Fin 0, Fin 1],
      [Fin 0, Fin 0, Fin 3, Fin 0, Fin 1, Fin 0, Fin 0]]\<rparr>"

lemma dup_t6_getRows6: "getRows dup_t6 [0..<6] = Inr [Some 0, Some 2, None, Some 1, None, None]"
  by (simp add: getRow_def shape_def column_def dup_t6_def fl_defs upt_conv_Cons)

lemma dup_clean_rev_pass0:
  "clean_pass (\<lambda>k. 10 - k) 2 4 (dup_t3, [Some 0, Some 2, None, Some 1, None, Some 3], ([]::nat list)) =
     Again (dup_t6, [Some 0, Some 2, None, Some 1, None, None], ([]::nat list) @ [3])"
proof (rule clean_pass_delete)
  show "filter (\<lambda>k. [Some 0, Some 2, None, Some 1, None, Some 3] ! k \<noteq> None) [0..<length [Some 0, Some 2, None, Some 1, None, Some 3]] = [0::nat, 1, 3, 5]"
    by simp
  show "filter (\<lambda>k. 2 \<le> k \<and> k < 2 + 4) [0::nat, 1, 3, 5] = [3::nat, 5]"
    by simp
  show "[3::nat, 5] \<noteq> []" by simp
  show "hd (set_order (\<lambda>k. 10 - k) [3::nat, 5]) = (5::nat)" by (simp add: set_order_def sort_key_def)
  show "[Some 0, Some 2, None, Some 1, None, Some 3] ! 5 = Some 3" by simp
  show "3 < length (rows dup_t3)" by (simp add: dup_t3_def)
  show "set_order (\<lambda>k. 10 - k) (filter (\<lambda>k. k \<notin> set [0::nat, 1, 3, 5]) [0..<2]) = ([]::nat list)"
    by (simp add: set_order_def sort_key_def upt_conv_Cons)
  show "map (\<lambda>k. fgt (fabs (rows dup_t3 ! 3 ! k)) eps) ([]::nat list) = []"
    by (simp add: dup_t3_def fl_defs)
  show "\<not> np_any []" by (simp add: np_any_def)
  show "np_delete_rows dup_t3 (([]::nat list) @ [3]) = Inr dup_t6"
    by (simp add: np_delete_rows_def drop_indices_def dup_t3_def dup_t6_def upt_conv_Cons)
  show "getRows dup_t6 [0..<4 + 2] = Inr [Some 0, Some 2, None, Some 1, None, None]"
    using dup_t6_getRows6 by simp
qed

definition dup_t7 :: ndarray where
  "dup_t7 = \<lparr>ncols = 7, rows =
     [[Fin 1, Fin 0, Fin 1, Fin 0, Fin 0, Fin 0, Fin 1],
      [Fin 0, Fin 1, Fin 0, Fin 0, Fin 1, Fin 0, Fin 1]]\<rparr>"

lemma dup_t7_getRows6: "getRows dup_t7 [0..<6] = Inr [Some 0, Some 1, Some 0, None, Some 1, None]"
  by (simp add: getRow_def shape_def column_def dup_t7_def fl_defs upt_conv_Cons)

lemma dup_clean_rev_pass1:
  "clean_pass (\<lambda>k. 10 - k) 2 4 (dup_t6, [Some 0, Some 2, None, Some 1, None, None], [3::nat]) =
     Again (dup_t7, [Some 0, Some 1, Some 0, None, Some 1, None], [3::nat] @ [1])"
proof (rule clean_pass_delete)
  show "filter (\<lambda>k. [Some 0, Some 2, None, Some 1, None, None] ! k \<noteq> None) [0..<length [Some 0, Some 2, None, Some 1, None, None]] = [0::nat, 1, 3]"
    by simp
  show "filter (\<lambda>k. 2 \<le> k \<and> k < 2 + 4) [0::nat, 1, 3] = [3::nat]"
    by simp
  show "[3::nat] \<noteq> []" by simp
  show "hd (set_order (\<lambda>k. 10 - k) [3::nat]) = (3::nat)" by (simp add: set_order_def sort_key_def)
  show "[Some 0, Some 2, None, Some 1, None, None] ! 3 = Some 1" by simp
  show "1 < length (rows dup_t6)" by (simp add: dup_t6_def)
  show "set_order (\<lambda>k. 10 - k) (filter (\<lambda>k. k \<notin> set [0::nat, 1, 3]) [0..<2]) = ([]::nat list)"
    by (simp add: set_order_def sort_key_def upt_conv_Cons)
  show "map (\<lambda>k. fgt (fabs (rows dup_t6 ! 1 ! k)) eps) ([]::nat list) = []"
    by (simp add: dup_t6_def fl_defs)
  show "\<not> np_any []" by (simp add: np_any_def)
  show "np_delete_rows dup_t6 ([3::nat] @ [1]) = Inr dup_t7"
    by (simp add: np_delete_rows_def drop_indices_def dup_t6_def dup_t7_def upt_conv_Cons)
  show "getRows dup_t7 [0..<4 + 2] = Inr [Some 0, Some 1, Some 0, None, Some 1, None]"
    using dup_t7_getRows6 by simp
qed

lemma dup_clean_rev_pass2:
  "clean_pass (\<lambda>k. 10 - k) 2 4 (dup_t7, [Some 0, Some 1, Some 0, None, Some 1, None], [3::nat, 1]) =
     Done (Inl IndexError)"
proof (rule clean_pass_delete_error)
  show "filter (\<lambda>k. [Some 0, Some 1, Some 0, None, Some 1, None] ! k \<noteq> None) [0..<length [Some 0, Some 1, Some 0, None, Some 1, None]] = [0::nat, 1, 2, 4]"
    by simp
  show "filter (\<lambda>k. 2 \<le> k \<and> k < 2 + 4) [0::nat, 1, 2, 4] = [2::nat, 4]"
    by simp
  show "[2::nat, 4] \<noteq> []" by simp
  show "hd (set_order (\<lambda>k. 10 - k) [2::nat, 4]) = (4::nat)" by (simp add: set_order_def sort_key_def)
  show "[Some 0, Some 1, Some 0, None, Some 1, None] ! 4 = Some 1" by simp
  show "1 < length (rows dup_t7)" by (simp add: dup_t7_def)
  show "set_order (\<lambda>k. 10 - k) (filter (\<lambda>k. k \<notin> set [0::nat, 1, 2, 4]) [0..<2]) = ([]::nat list)"
    by (simp add: set_order_def sort_key_def upt_conv_Cons)
  show "map (\<lambda>k. fgt (fabs (rows dup_t7 ! 1 ! k)) eps) ([]::nat list) = []"
    by (simp add: dup_t7_def fl_defs)
  show "\<not> np_any []" by (simp add: np_any_def)
  show "np_delete_rows dup_t7 ([3::nat, 1] @ [1]) = Inl IndexError"
    by (simp add: np_delete_rows_def dup_t7_def)
qed

lemma dup_clean_rev:
  "clean_loop (\<lambda>k. 10 - k) 2 4 (dup_t3, [Some 0, Some 2, None, Some 1, None, Some 3], ([]::nat list)) =
     Inl IndexError"
proof -
  have c2: "clean_loop (\<lambda>k. 10 - k) 2 4 (dup_t7, [Some 0, Some 1, Some 0, None, Some 1, None], [3::nat, 1]) =
     Inl IndexError"
    by (rule clean_loop_done [OF dup_clean_rev_pass2])
  have c1: "clean_loop (\<lambda>k. 10 - k) 2 4 (dup_t6, [Some 0, Some 2, None, Some 1, None, None], [3::nat]) =
     Inl IndexError"
    using dup_clean_rev_pass1 c2 by (simp add: clean_loop_again)
  have c0: "clean_loop (\<lambda>k. 10 - k) 2 4 (dup_t3, [Some 0, Some 2, None, Some 1, None, Some 3], ([]::nat list)) =
     Inl IndexError"
    using dup_clean_rev_pass0 c1 by (simp add: clean_loop_again)
  show ?thesis by (rule c0)
qed

lemma dup_two_phases_rev:
  "two_phases (\<lambda>k. 10 - k) 4 2 orig_c dup_t = Some (Inl IndexError)"
proof (rule two_phases_clean_error)
  show "simplexAlgorithmTableau dup_t = Some (Inr (dup_t3, True, False))" by (rule dup_phase_one)
  show "\<not> flt (last (last (rows dup_t3))) (fneg sqrt_eps)" by (simp add: dup_t3_def fl_defs)
  show "getRows dup_t3 [0..<4 + 2] = Inr [Some 0, Some 2, None, Some 1, None, Some 3]" using dup_t3_getRows6 by simp
  show "clean_loop (\<lambda>k. 10 - k) 2 4 (dup_t3, [Some 0, Some 2, None, Some 1, None, Some 3], []) = Inl IndexError" by (rule dup_clean_rev)
qed

lemma dup_simplex_rev:
  "simplex (\<lambda>k. 10 - k) dup_A dup_b orig_c =
     Some \<lparr>array_A = dup_A, array_b = dup_b, array_c = orig_c,
           result = Inl IndexError\<rparr>"
proof -
  have 1: "length dup_b = length (rows dup_A)" "length orig_c = ncols dup_A"
    by (simp_all add: dup_A_def dup_b_def orig_c_def array2_def)
  have 2: "length (rows dup_A) = 4" "ncols dup_A = 2"
    by (simp_all add: dup_A_def array2_def)
  show ?thesis
    by (simp add: simplex_sizes_ok[OF 1] 2 dup_negate dup_first dup_two_phases_rev)
qed

lemma orig_copt: "copt orig_s2 = Fin 2"
  by (simp add: copt_def orig_s2_def)

lemma orig_s2_getRows2: "getRows orig_s2 [0..<2] = Inr [Some 0, Some 1]"
  by (simp add: getRow_def shape_def column_def orig_s2_def fl_defs upt_conv_Cons)

lemma orig_solution: "solution orig_s2 = Inr [Fin 1, Fin 1]"
proof -
  have s: "shape orig_s2 = (3, 3)" by (simp add: shape_def orig_s2_def)
  have n: "(3::nat) - 1 = 2" by simp
  show ?thesis
    unfolding solution_def s Let_def prod.case n orig_s2_getRows2
    by (simp add: orig_s2_def upt_conv_Cons)
qed

lemma dup_rows: "rows dup_A = rows orig_A @ [rows orig_A ! 0]"
  by (simp add: dup_A_def orig_A_def array2_def)

lemma dup_entries: "dup_b = orig_b @ [orig_b ! 0]"
  by (simp add: dup_b_def orig_b_def)

text \<open>
  Claim C4.  For every problem that is classified as optimal and every row index \<open>i\<close>, the
  call on the problem enlarged by a copy of row \<open>i\<close> of \<open>A\<close> and of entry \<open>i\<close> of \<open>b\<close> returns
  the same optimal value and the same solution.

  The code does not do this.  In the cleaning loop, \<open>rowsToRemove\<close> accumulates the rows found
  redundant so far, and each pass hands the whole list to \<open>np.delete\<close> on the tableau from which
  the earlier rows are already gone.  With one redundant row nothing goes wrong: \<open>orig\<close> returns
  the optimal value 2 at the solution \<open>(1, 1)\<close>.  With two redundant rows the second pass
  deletes rows 1 and 2 of the reduced tableau, so the constraint \<open>x2 = 1\<close> is lost with the
  redundant one, and the third pass asks for row 2 of a tableau of two rows: \<open>dup\<close> ends in
  an \<open>IndexError\<close>, whichever auxiliary column is cleaned first.
\<close>

theorem duplicate_row_raises:
  "rows dup_A = rows orig_A @ [rows orig_A ! 0] \<and>
   ncols dup_A = ncols orig_A \<and>
   dup_b = orig_b @ [orig_b ! 0] \<and>
   simplex id orig_A orig_b orig_c =
     Some \<lparr>array_A = orig_A, array_b = orig_b, array_c = orig_c,
           result = Inr (orig_s2, False, False)\<rparr> \<and>
   copt orig_s2 = Fin 2 \<and>
   solution orig_s2 = Inr [Fin 1, Fin 1] \<and>
   simplex id dup_A dup_b orig_c =
     Some \<lparr>array_A = dup_A, array_b = dup_b, array_c = orig_c,
           result = Inl IndexError\<rparr> \<and>
   simplex (\<lambda>k. 10 - k) dup_A dup_b orig_c =
     Some \<lparr>array_A = dup_A, array_b = dup_b, array_c = orig_c,
           result = Inl IndexError\<rparr>"
proof (intro conjI)
  show "rows dup_A = rows orig_A @ [rows orig_A ! 0]" by (rule dup_rows)
  show "ncols dup_A = ncols orig_A" by (simp add: dup_A_def orig_A_def array2_def)
  show "dup_b = orig_b @ [orig_b ! 0]" by (rule dup_entries)
  show "simplex id orig_A orig_b orig_c =
     Some \<lparr>array_A = orig_A, array_b = orig_b, array_c = orig_c,
           result = Inr (orig_s2, False, False)\<rparr>" by (rule orig_simplex)
  show "copt orig_s2 = Fin 2" by (rule orig_copt)
  show "solution orig_s2 = Inr [Fin 1, Fin 1]" by (rule orig_solution)
  show "simplex id dup_A dup_b orig_c =
     Some \<lparr>array_A = dup_A, array_b = dup_b, array_c = orig_c,
           result = Inl IndexError\<rparr>" by (rule dup_simplex)
  show "simplex (\<lambda>k. 10 - k) dup_A dup_b orig_c =
     Some \<lparr>array_A = dup_A, array_b = dup_b, array_c = orig_c,
           result = Inl IndexError\<rparr>" by (rule dup_simplex_rev)
qed

end
